theory Spec2Isabelle
  imports Complex_Main "HOL-Library.Word"
begin

unbundle bit_operations_syntax

section \<open>Deterministic random source (utils/rng: SeededRNG)\<close>

text \<open>
  The class keeps one field, \<open>seed\<close>, a JavaScript number.  The constructor
  stores an unsigned 32-bit value; \<open>next()\<close> adds \<open>0x6d2b79f5\<close> to the field
  without reducing it, so the field is an unbounded natural number here (the
  double holding it is exact below \<open>2^53\<close>, several million draws).  Every
  bitwise operator and \<open>Math.imul\<close> work on the low 32 bits of their
  operands, so the mixing is arithmetic on \<open>32 word\<close>.
\<close>

record SeededRNG =
  seed :: nat

text \<open>A JavaScript string is a sequence of UTF-16 code units (\<open>charCodeAt\<close>).\<close>

type_synonym js_string = "nat list"

datatype seed_arg = SeedNumber int | SeedString js_string

text \<open>
  \<open>hash = ((hash << 5) + hash) + str.charCodeAt(i); hash = hash >>> 0\<close>,
  starting from 5381.
\<close>

fun hashLoop :: "32 word \<Rightarrow> js_string \<Rightarrow> 32 word" where
  "hashLoop h [] = h"
| "hashLoop h (c # cs) = hashLoop ((push_bit 5 h + h) + word_of_nat c) cs"

definition hashString :: "js_string \<Rightarrow> nat" where
  "hashString str = unat (hashLoop 5381 str)"

text \<open>\<open>seed >>> 0\<close> on an integer is its residue modulo \<open>2^32\<close>.\<close>

definition createRNG :: "seed_arg \<Rightarrow> SeededRNG" where
  "createRNG s = (case s of
      SeedString str \<Rightarrow> \<lparr>seed = hashString str\<rparr>
    | SeedNumber k \<Rightarrow> \<lparr>seed = nat (k mod 2 ^ 32)\<rparr>)"

text \<open>
  \<open>next()\<close> returns \<open>u / 4294967296\<close> for an unsigned 32-bit \<open>u\<close>;
  \<open>next_u32\<close> is that numerator together with the advanced generator.
\<close>

definition next_u32 :: "SeededRNG \<Rightarrow> nat \<times> SeededRNG" where
  "next_u32 r =
     (let s = seed r + 0x6d2b79f5;
          t0 = (word_of_nat s :: 32 word);
          t1 = (t0 XOR drop_bit 15 t0) * (t0 OR 1);
          t2 = t1 XOR (t1 + (t1 XOR drop_bit 7 t1) * (t1 OR 61))
      in (unat (t2 XOR drop_bit 14 t2), \<lparr>seed = s\<rparr>))"

text \<open>
  \<open>nextInt(min, max) = Math.floor(this.next() * (max - min + 1)) + min\<close>.
  With \<open>next() = u / 2^32\<close> the product \<open>u * (max - min + 1) / 2^32\<close> is
  computed without rounding whenever \<open>\<bar>max - min + 1\<bar> < 2^21\<close>, and its
  floor is the integer quotient below (rounded towards minus infinity, as
  \<open>Math.floor\<close>).
\<close>

definition nextInt :: "int \<Rightarrow> int \<Rightarrow> SeededRNG \<Rightarrow> int \<times> SeededRNG" where
  "nextInt lo hi r =
     (let (u, r') = next_u32 r
      in ((int u * (hi - lo + 1)) div 2 ^ 32 + lo, r'))"

text \<open>
  \<open>pick(array) = array[this.nextInt(0, array.length - 1)]\<close>; on the empty
  array the index is 0 and the element read is \<open>undefined\<close> (\<open>None\<close>).
\<close>

definition pick :: "'a list \<Rightarrow> SeededRNG \<Rightarrow> 'a option \<times> SeededRNG" where
  "pick xs r =
     (let (i, r') = nextInt 0 (int (length xs) - 1) r
      in (if 0 \<le> i \<and> nat i < length xs then Some (xs ! nat i) else None, r'))"

section \<open>Latin square generator (engine/generator/LatinSquare)\<close>

type_synonym grid = "int list list"

definition basePattern :: "nat \<Rightarrow> grid" where
  "basePattern n = map (\<lambda>r. map (\<lambda>c. int ((r + c) mod n) + 1) [0..<n]) [0..<n]"

text \<open>\<open>[a[i], a[j]] = [a[j], a[i]]\<close>: both reads happen before both writes.\<close>

definition swapAt :: "'a list \<Rightarrow> nat \<Rightarrow> nat \<Rightarrow> 'a list" where
  "swapAt xs i j = xs[i := xs ! j, j := xs ! i]"

text \<open>
  The two shuffles run \<open>for (i = size - 1; i > 0; i--)\<close>; the first argument
  below is the current \<open>i\<close>.
\<close>

fun shuffleRows :: "nat \<Rightarrow> grid \<Rightarrow> SeededRNG \<Rightarrow> grid \<times> SeededRNG" where
  "shuffleRows 0 sq r = (sq, r)"
| "shuffleRows (Suc k) sq r =
     (let (j, r') = nextInt 0 (int (Suc k)) r
      in shuffleRows k (swapAt sq (Suc k) (nat j)) r')"

fun shuffleCols :: "nat \<Rightarrow> grid \<Rightarrow> SeededRNG \<Rightarrow> grid \<times> SeededRNG" where
  "shuffleCols 0 sq r = (sq, r)"
| "shuffleCols (Suc k) sq r =
     (let (j, r') = nextInt 0 (int (Suc k)) r
      in shuffleCols k (map (\<lambda>row. swapAt row (Suc k) (nat j)) sq) r')"

definition relabel :: "int \<Rightarrow> int \<Rightarrow> int \<Rightarrow> int" where
  "relabel a b x = (if x = a then b else if x = b then a else x)"

text \<open>The relabelling loop; the first argument counts the swaps still to do.\<close>

fun remapNumbers :: "nat \<Rightarrow> nat \<Rightarrow> grid \<Rightarrow> SeededRNG \<Rightarrow> grid \<times> SeededRNG" where
  "remapNumbers 0 n sq r = (sq, r)"
| "remapNumbers (Suc k) n sq r =
     (let (a, r1) = nextInt 1 (int n) r;
          (b, r2) = nextInt 1 (int n) r1
      in remapNumbers k n (if a \<noteq> b then map (map (relabel a b)) sq else sq) r2)"

definition generateLatinSquare :: "nat \<Rightarrow> SeededRNG \<Rightarrow> grid \<times> SeededRNG" where
  "generateLatinSquare n r =
     (let (sq1, r1) = shuffleRows (n - 1) (basePattern n) r;
          (sq2, r2) = shuffleCols (n - 1) sq1 r1;
          (numSwaps, r3) = nextInt 5 15 r2
      in remapNumbers (nat numSwaps) n sq2 r3)"

text \<open>Column \<open>c\<close> of a grid, read top to bottom.\<close>

definition column :: "grid \<Rightarrow> nat \<Rightarrow> int list" where
  "column g c = map (\<lambda>row. row ! c) g"

definition latin :: "nat \<Rightarrow> grid \<Rightarrow> bool" where
  "latin n g \<longleftrightarrow>
     length g = n \<and>
     (\<forall>r < n. length (g ! r) = n \<and> set (g ! r) = {1 .. int n}) \<and>
     (\<forall>c < n. set (column g c) = {1 .. int n})"

text \<open>
  \<open>isValidLatinSquare\<close>: every row and every column, as a \<open>Set\<close>, has
  \<open>size\<close> members, all of them in \<open>1..size\<close>.  A column is read as
  \<open>grid[row][col]\<close>, which is \<open>undefined\<close> (\<open>None\<close>) beyond the end of a row.
\<close>

definition isValidLatinSquare :: "grid \<Rightarrow> bool" where
  "isValidLatinSquare g =
     (let n = length g in
      list_all (\<lambda>rw. length (remdups rw) = n \<and> list_all (\<lambda>x. 1 \<le> x \<and> x \<le> int n) (remdups rw)) g \<and>
      list_all (\<lambda>c.
          let colSet = remdups (map (\<lambda>rw. if c < length rw then Some (rw ! c) else None) g)
          in length colSet = n \<and>
             list_all (\<lambda>x. case x of None \<Rightarrow> False | Some y \<Rightarrow> 1 \<le> y \<and> y \<le> int n) colSet)
        [0..<n])"

section \<open>JavaScript numbers\<close>

text \<open>
  A JavaScript number is an IEEE 754 binary64 value: a finite double, written
  here as the rational it denotes, an infinity, or \<open>NaN\<close>.  The two zeros are
  not told apart: the arithmetic modelled below never divides by a negative
  zero (the one divisor is an array length) and ends in \<open>Math.max(0, _)\<close>, so the
  sign of a zero never reaches a result.
\<close>

datatype number = Num rat | PosInf | NegInf | NaN

text \<open>The integer part of the binary logarithm of a positive number.\<close>

function ilog2 :: "int \<Rightarrow> int" where
  "ilog2 n = (if n < 2 then 0 else 1 + ilog2 (n div 2))"
  by pat_completeness auto
termination
  by (relation "measure (\<lambda>n. nat n)") auto

text \<open>Powers of two with an integer exponent, by repeated squaring.\<close>

function pow2n :: "int \<Rightarrow> rat" where
  "pow2n k = (if k \<le> 0 then 1
              else if even k then (let h = pow2n (k div 2) in h * h)
              else 2 * pow2n (k - 1))"
  by pat_completeness auto
termination
  by (relation "measure (\<lambda>k. nat k)") auto

definition pow2 :: "int \<Rightarrow> rat" where
  "pow2 k = (if 0 \<le> k then pow2n k else 1 / pow2n (- k))"

definition floorLog2 :: "rat \<Rightarrow> int" where
  "floorLog2 x =
     (let (a, b) = quotient_of x;
          k = ilog2 a - ilog2 b
      in if pow2 k \<le> x then k else k - 1)"

text \<open>Rounding to the nearest integer, a tie going to the even one.\<close>

definition roundHalfEven :: "rat \<Rightarrow> int" where
  "roundHalfEven x =
     (let f = \<lfloor>x\<rfloor>; d = x - of_int f
      in if d < 1 / 2 then f
         else if 1 / 2 < d then f + 1
         else if even f then f else f + 1)"

text \<open>
  Rounding a rational to binary64, to nearest and ties to even: the spacing
  of the doubles around \<open>x\<close> is \<open>2 ^ (e - 52)\<close>, where \<open>e\<close> is the binary exponent
  of \<open>x\<close>, and not below \<open>-1022\<close> (the subnormal numbers).
\<close>

definition rd :: "rat \<Rightarrow> rat" where
  "rd x =
     (if x = 0 then 0
      else let e = max (floorLog2 \<bar>x\<bar>) (- 1022);
               q = pow2 (e - 52)
           in of_int (roundHalfEven (x / q)) * q)"

text \<open>
  The result of an operation whose exact value is \<open>x\<close>: the rounded value, or an
  infinity when that has binary exponent 1024 or more, that is, magnitude
  \<open>2 ^ 1024\<close> or more.
\<close>

definition fl :: "rat \<Rightarrow> number" where
  "fl x =
     (let y = rd x
      in if y = 0 then Num 0
         else if 1024 \<le> floorLog2 \<bar>y\<bar> then (if 0 < y then PosInf else NegInf)
         else Num y)"

text \<open>A non-negative integer (a size, an array length) as a number.\<close>

definition ofNat :: "nat \<Rightarrow> number" where
  "ofNat n = fl (of_nat n)"

text \<open>The operators \<open>+\<close>, \<open>-\<close>, \<open>*\<close>, \<open>/\<close> and \<open>Math.max\<close> on numbers.\<close>

fun nadd :: "number \<Rightarrow> number \<Rightarrow> number" where
  "nadd NaN y = NaN"
| "nadd x NaN = NaN"
| "nadd PosInf NegInf = NaN"
| "nadd NegInf PosInf = NaN"
| "nadd PosInf y = PosInf"
| "nadd NegInf y = NegInf"
| "nadd x PosInf = PosInf"
| "nadd x NegInf = NegInf"
| "nadd (Num a) (Num b) = fl (a + b)"

fun nneg :: "number \<Rightarrow> number" where
  "nneg (Num a) = Num (- a)"
| "nneg PosInf = NegInf"
| "nneg NegInf = PosInf"
| "nneg NaN = NaN"

definition nsub :: "number \<Rightarrow> number \<Rightarrow> number" where
  "nsub x y = nadd x (nneg y)"

text \<open>The sign of a number other than \<open>NaN\<close>: \<open>-1\<close>, \<open>0\<close> or \<open>1\<close>.\<close>

fun nsgn :: "number \<Rightarrow> int" where
  "nsgn (Num a) = (if a < 0 then - 1 else if a = 0 then 0 else 1)"
| "nsgn PosInf = 1"
| "nsgn NegInf = - 1"
| "nsgn NaN = 0"

definition signedInf :: "int \<Rightarrow> number" where
  "signedInf s = (if s = 0 then NaN else if 0 < s then PosInf else NegInf)"

fun nmul :: "number \<Rightarrow> number \<Rightarrow> number" where
  "nmul NaN y = NaN"
| "nmul x NaN = NaN"
| "nmul (Num a) (Num b) = fl (a * b)"
| "nmul x y = signedInf (nsgn x * nsgn y)"

fun ndiv :: "number \<Rightarrow> number \<Rightarrow> number" where
  "ndiv NaN y = NaN"
| "ndiv x NaN = NaN"
| "ndiv (Num a) (Num b) = (if b = 0 then signedInf (nsgn (Num a)) else fl (a / b))"
| "ndiv (Num a) y = Num 0"
| "ndiv x (Num b) = signedInf (nsgn x * (if b < 0 then - 1 else 1))"
| "ndiv x y = NaN"

fun nmax :: "number \<Rightarrow> number \<Rightarrow> number" where
  "nmax NaN y = NaN"
| "nmax x NaN = NaN"
| "nmax PosInf y = PosInf"
| "nmax x PosInf = PosInf"
| "nmax NegInf y = y"
| "nmax x NegInf = x"
| "nmax (Num a) (Num b) = Num (max a b)"

section \<open>Data model (types/puzzle)\<close>

text \<open>
  Coordinates and sizes are non-negative integers.  Grid values, clue targets
  and candidate values are JavaScript numbers that hold integers: \<open>int\<close>.
\<close>

record cell =
  row :: nat
  col :: nat

datatype operation = Add | Sub | Mul | Div | NoOp
  \<comment> \<open>the literals \<open>'+'\<close>, \<open>'-'\<close>, \<open>'\<times>'\<close>, \<open>'\<div>'\<close> and \<open>'none'\<close>\<close>

record clue =
  target :: int
  operation :: operation

record cage =
  cage_id :: nat
  cells :: "cell list"
  clue :: clue

datatype difficulty = Beginner | Easy | Medium | Hard | Expert

text \<open>
  \<open>generatePuzzleId\<close> builds the text
  \<open>difficulty-NxN-timestamp-random\<close>; the identifier is kept here as the
  four values the text is printed from.
\<close>

record puzzle_ident =
  id_difficulty :: difficulty
  id_size :: nat
  id_timestamp :: int
  id_random :: int

record puzzle =
  puzzle_id :: puzzle_ident
  psize :: nat
  difficulty :: difficulty
  cages :: "cage list"
  solution :: grid
  puzzle_seed :: "js_string option"

section \<open>Difficulty presets (engine/difficulty/presets)\<close>

text \<open>
  \<open>singleCellRate\<close> is a probability with at most two decimals; only its
  sign is ever read by the generator, so it is kept as a rational.
\<close>

record DifficultyPreset =
  gridSize :: nat
  operations :: "operation list"
  minCageSize :: int
  maxCageSize :: int
  singleCellRate :: rat

fun getDifficultyPreset :: "difficulty \<Rightarrow> DifficultyPreset" where
  "getDifficultyPreset Beginner =
     \<lparr>gridSize = 4, operations = [Add], minCageSize = 1, maxCageSize = 2,
      singleCellRate = 3 / 10\<rparr>"
| "getDifficultyPreset Easy =
     \<lparr>gridSize = 5, operations = [Add, Sub], minCageSize = 1, maxCageSize = 3,
      singleCellRate = 2 / 10\<rparr>"
| "getDifficultyPreset Medium =
     \<lparr>gridSize = 6, operations = [Add, Sub, Mul], minCageSize = 1, maxCageSize = 4,
      singleCellRate = 1 / 10\<rparr>"
| "getDifficultyPreset Hard =
     \<lparr>gridSize = 7, operations = [Add, Sub, Mul, Div], minCageSize = 2, maxCageSize = 5,
      singleCellRate = 5 / 100\<rparr>"
| "getDifficultyPreset Expert =
     \<lparr>gridSize = 9, operations = [Add, Sub, Mul, Div], minCageSize = 2, maxCageSize = 6,
      singleCellRate = 0\<rparr>"

section \<open>Clue derivation (engine/generator/ClueCalculator)\<close>

text \<open>
  JavaScript's \<open>%\<close> truncates towards zero; \<open>x % 0\<close> is \<open>NaN\<close>, which is
  not \<open>=== 0\<close>, so the caller tests the divisor first.
\<close>

definition js_rem :: "int \<Rightarrow> int \<Rightarrow> int" where
  "js_rem a b = sgn a * (\<bar>a\<bar> mod \<bar>b\<bar>)"

text \<open>
  \<open>possibleClues.sort((a, b) => b.priority - a.priority)\<close>: a stable sort
  into descending priority.
\<close>

definition sortByPriority :: "(clue \<times> int) list \<Rightarrow> (clue \<times> int) list" where
  "sortByPriority xs = sort_key (\<lambda>e. - snd e) xs"

text \<open>
  \<open>calculateTwoCellClue\<close>, on the two destructured values \<open>[a, b] = values\<close>.
  When \<open>smaller\<close> divides \<open>larger\<close> the quotient \<open>larger / smaller\<close> is the
  integer \<open>larger div smaller\<close>.
\<close>

definition calculateTwoCellClue :: "int \<Rightarrow> int \<Rightarrow> operation list \<Rightarrow> clue" where
  "calculateTwoCellClue a b ops =
     (let larger = max a b;
          smaller = min a b;
          possibleClues =
            (if Add \<in> set ops then [(\<lparr>target = a + b, operation = Add\<rparr>, 1)] else []) @
            (if Sub \<in> set ops \<and> larger \<noteq> smaller
             then [(\<lparr>target = larger - smaller, operation = Sub\<rparr>, 2)] else []) @
            (if Mul \<in> set ops then [(\<lparr>target = a * b, operation = Mul\<rparr>, 3)] else []) @
            (if Div \<in> set ops \<and> smaller \<noteq> 0 \<and> js_rem larger smaller = 0
             then [(\<lparr>target = larger div smaller, operation = Div\<rparr>, 4)] else [])
      in case sortByPriority possibleClues of
           [] \<Rightarrow> \<lparr>target = a + b, operation = Add\<rparr>
         | e # _ \<Rightarrow> fst e)"

definition calculateMultiCellClue :: "int list \<Rightarrow> operation list \<Rightarrow> clue" where
  "calculateMultiCellClue vals ops =
     (if Add \<in> set ops then \<lparr>target = foldl (+) 0 vals, operation = Add\<rparr>
      else if Mul \<in> set ops then \<lparr>target = foldl (*) 1 vals, operation = Mul\<rparr>
      else \<lparr>target = foldl (+) 0 vals, operation = Add\<rparr>)"

text \<open>
  Reading \<open>grid[r][c]\<close>: when \<open>grid[r]\<close> is \<open>undefined\<close> the property access
  throws a \<open>TypeError\<close>; when the row exists and the column does not, the
  value read is \<open>undefined\<close> (\<open>None\<close>).
\<close>

datatype exn = TypeError | NotANumber | GenerationFailed

definition readCell :: "grid \<Rightarrow> nat \<Rightarrow> nat \<Rightarrow> exn + int option" where
  "readCell g r c =
     (if r < length g
      then Inr (if c < length (g ! r) then Some (g ! r ! c) else None)
      else Inl TypeError)"

text \<open>\<open>cells.map(c => grid[c.row][c.col])\<close>, stopping at the first throw.\<close>

fun readCells :: "grid \<Rightarrow> cell list \<Rightarrow> exn + int option list" where
  "readCells g [] = Inr []"
| "readCells g (c # cs) =
     (case readCell g (row c) (col c) of
        Inl e \<Rightarrow> Inl e
      | Inr v \<Rightarrow> (case readCells g cs of Inl e \<Rightarrow> Inl e | Inr vs \<Rightarrow> Inr (v # vs)))"

text \<open>
  \<open>calculateClue\<close>.  A clue target is an integer here; where a cell of the
  cage lies beside the solution grid JavaScript would go on with
  \<open>undefined\<close> and build a target that is no number, which the model reports
  as \<open>NotANumber\<close>.
\<close>

definition calculateClue :: "cell list \<Rightarrow> grid \<Rightarrow> operation list \<Rightarrow> exn + clue" where
  "calculateClue cs sol ops =
     (case readCells sol cs of
        Inl e \<Rightarrow> Inl e
      | Inr vs \<Rightarrow>
          if None \<in> set vs then Inl NotANumber
          else let vals = map the vs in
            if length cs = 1 then Inr \<lparr>target = vals ! 0, operation = NoOp\<rparr>
            else if length cs = 2 then Inr (calculateTwoCellClue (vals ! 0) (vals ! 1) ops)
            else Inr (calculateMultiCellClue vals ops))"

text \<open>\<open>assignClues\<close> overwrites the clue of every cage, in order.\<close>

fun assignClues :: "cage list \<Rightarrow> grid \<Rightarrow> operation list \<Rightarrow> exn + cage list" where
  "assignClues [] sol ops = Inr []"
| "assignClues (cg # rest) sol ops =
     (case calculateClue (cells cg) sol ops of
        Inl e \<Rightarrow> Inl e
      | Inr cl \<Rightarrow>
          (case assignClues rest sol ops of
             Inl e \<Rightarrow> Inl e
           | Inr rest' \<Rightarrow> Inr (cg\<lparr>clue := cl\<rparr> # rest')))"

text \<open>
  The clue the specification describes for a two-cell cage: the first
  eligible operation in the order division, multiplication, subtraction,
  addition, and addition when none is eligible.
\<close>

definition evenly_divisible :: "int \<Rightarrow> int \<Rightarrow> bool" where
  "evenly_divisible m d \<longleftrightarrow> d \<noteq> 0 \<and> d dvd m"

definition spec_two_cell_clue :: "int \<Rightarrow> int \<Rightarrow> operation list \<Rightarrow> clue" where
  "spec_two_cell_clue a b allowed =
     (if Div \<in> set allowed \<and> evenly_divisible (max a b) (min a b)
        then \<lparr>target = max a b div min a b, operation = Div\<rparr>
      else if Mul \<in> set allowed then \<lparr>target = a * b, operation = Mul\<rparr>
      else if Sub \<in> set allowed \<and> a \<noteq> b then \<lparr>target = max a b - min a b, operation = Sub\<rparr>
      else \<lparr>target = a + b, operation = Add\<rparr>)"

section \<open>Difficulty scorer (engine/difficulty/DifficultyEngine)\<close>

text \<open>
  The table \<open>opComplexity\<close>, a \<open>Map\<close> from the operation to its weight; \<open>none\<close>
  has no entry, and \<open>opComplexity.get(op) ?? 0\<close> reads it as 0.
\<close>

definition opComplexity :: "operation \<Rightarrow> number option" where
  "opComplexity op =
     (case op of
        Add \<Rightarrow> Some (Num 5)
      | Sub \<Rightarrow> Some (Num 10)
      | Mul \<Rightarrow> Some (Num 15)
      | Div \<Rightarrow> Some (Num 20)
      | NoOp \<Rightarrow> None)"

text \<open>
  \<open>estimateDifficulty\<close>, one double operation of the code after the other.
  The size and the array lengths are whole numbers that are doubles
  (\<open>ofNat\<close> rounds one that is not).  With no cage the average is \<open>0 / 0\<close>,
  \<open>NaN\<close>, and so is the result.
\<close>

definition estimateDifficulty :: "puzzle \<Rightarrow> number" where
  "estimateDifficulty p =
     (let score0 = nadd (Num 0) (nmul (ofNat (psize p)) (Num 10));
          score1 = foldl (\<lambda>score cg.
                      nadd score (case opComplexity (operation (clue cg)) of
                                    Some w \<Rightarrow> w
                                  | None \<Rightarrow> Num 0))
                     score0 (cages p);
          avgCageSize = ndiv (foldl (\<lambda>s c. nadd s (ofNat (length (cells c)))) (Num 0) (cages p))
                             (ofNat (length (cages p)));
          score2 = nsub score1 (nmul avgCageSize (Num 2));
          singleCellCages = ofNat (length (filter (\<lambda>c. length (cells c) = 1) (cages p)));
          score3 = nsub score2 (nmul singleCellCages (Num 5))
      in nmax (Num 0) score3)"

text \<open>
  The score as the specification words it: \<open>size * 10\<close>, plus the weight of
  every cage, minus twice the average cage size, minus 5 per single-cell cage,
  in the arithmetic of JavaScript numbers, read from left to right.
\<close>

definition spec_weight :: "operation \<Rightarrow> nat" where
  "spec_weight op = (case op of Add \<Rightarrow> 5 | Sub \<Rightarrow> 10 | Mul \<Rightarrow> 15 | Div \<Rightarrow> 20 | NoOp \<Rightarrow> 0)"

definition spec_average :: "puzzle \<Rightarrow> number" where
  "spec_average p =
     ndiv (foldl nadd (Num 0) (map (\<lambda>c. ofNat (length (cells c))) (cages p)))
          (ofNat (length (cages p)))"

definition spec_score :: "puzzle \<Rightarrow> number" where
  "spec_score p =
     nsub (nsub (foldl nadd (nmul (ofNat (psize p)) (Num 10))
                   (map (\<lambda>c. ofNat (spec_weight (operation (clue c)))) (cages p)))
                (nmul (Num 2) (spec_average p)))
          (nmul (Num 5) (ofNat (length (filter (\<lambda>c. length (cells c) = 1) (cages p)))))"

text \<open>
  The same score where every sum of whole numbers is taken exactly, and only
  the quotient, its double and the two differences are rounded.
\<close>

definition weightSum :: "puzzle \<Rightarrow> nat" where
  "weightSum p = psize p * 10 + sum_list (map (\<lambda>c. spec_weight (operation (clue c))) (cages p))"

definition cellCount :: "puzzle \<Rightarrow> nat" where
  "cellCount p = sum_list (map (\<lambda>c. length (cells c)) (cages p))"

definition singleCells :: "puzzle \<Rightarrow> nat" where
  "singleCells p = length (filter (\<lambda>c. length (cells c) = 1) (cages p))"

definition roundedScore :: "puzzle \<Rightarrow> rat" where
  "roundedScore p =
     rd (rd (of_nat (weightSum p)
             - rd (2 * rd (of_nat (cellCount p) / of_nat (length (cages p)))))
         - 5 * of_nat (singleCells p))"

text \<open>The bare formula, in exact arithmetic.\<close>

definition exactScore :: "puzzle \<Rightarrow> rat" where
  "exactScore p =
     of_nat (weightSum p)
     - 2 * (of_nat (cellCount p) / of_nat (length (cages p)))
     - 5 * of_nat (singleCells p)"

section \<open>Cage partitioner (engine/generator/CageGenerator)\<close>

record CageConfig =
  minSize :: int
  maxSize :: int
  allowSingleCell :: bool

text \<open>\<open>Partial<CageConfig>\<close>: a key that is absent is \<open>None\<close>.\<close>

record PartialCageConfig =
  minSize_opt :: "int option"
  maxSize_opt :: "int option"
  allowSingleCell_opt :: "bool option"

definition DEFAULT_CONFIG :: CageConfig where
  "DEFAULT_CONFIG = \<lparr>minSize = 1, maxSize = 4, allowSingleCell = True\<rparr>"

text \<open>\<open>{ ...DEFAULT_CONFIG, ...config }\<close>\<close>

definition mergeConfig :: "PartialCageConfig \<Rightarrow> CageConfig" where
  "mergeConfig config =
     \<lparr>minSize = (case minSize_opt config of None \<Rightarrow> minSize DEFAULT_CONFIG | Some v \<Rightarrow> v),
      maxSize = (case maxSize_opt config of None \<Rightarrow> maxSize DEFAULT_CONFIG | Some v \<Rightarrow> v),
      allowSingleCell =
        (case allowSingleCell_opt config of
           None \<Rightarrow> allowSingleCell DEFAULT_CONFIG | Some v \<Rightarrow> v)\<rparr>"

definition directions :: "(int \<times> int) list" where
  "directions = [(- 1, 0), (1, 0), (0, - 1), (0, 1)]"

text \<open>
  The sets \<open>visited\<close>, \<open>cageCells\<close> and \<open>seen\<close> hold the keys
  \<open>`${row},${col}`\<close>; the text determines the two integers, so a set of keys
  is a set of cells.  The body of the inner loop of \<open>getUnvisitedNeighbors\<close>,
  for one cell and one direction, on the pair \<open>(neighbors, seen)\<close>:
\<close>

definition tryNeighbor ::
  "nat \<Rightarrow> cell set \<Rightarrow> cell set \<Rightarrow> cell \<Rightarrow> int \<times> int \<Rightarrow> cell list \<times> cell set
     \<Rightarrow> cell list \<times> cell set" where
  "tryNeighbor n visited cageCellsSet c d st =
     (let newRow = int (row c) + fst d;
          newCol = int (col c) + snd d;
          key = \<lparr>row = nat newRow, col = nat newCol\<rparr>
      in if 0 \<le> newRow \<and> newRow < int n \<and> 0 \<le> newCol \<and> newCol < int n \<and>
            key \<notin> visited \<and> key \<notin> cageCellsSet \<and> key \<notin> snd st
         then (fst st @ [key], insert key (snd st))
         else st)"

definition getUnvisitedNeighbors ::
  "cell list \<Rightarrow> nat \<Rightarrow> cell set \<Rightarrow> cell set \<Rightarrow> cell list" where
  "getUnvisitedNeighbors cageCells n visited cageCellsSet =
     fst (fold (\<lambda>c st. fold (tryNeighbor n visited cageCellsSet c) directions st)
            cageCells ([], {}))"

text \<open>
  The \<open>while (cells.length < targetSize)\<close> loop of \<open>growCage\<close>.  Were
  \<open>rng.pick\<close> to return \<open>undefined\<close>, reading \<open>next.row\<close> would throw.
\<close>

function growLoop ::
  "nat \<Rightarrow> cell set \<Rightarrow> int \<Rightarrow> cell list \<Rightarrow> cell set \<Rightarrow> SeededRNG
     \<Rightarrow> exn + (cell list \<times> SeededRNG)" where
  "growLoop n visited targetSize cs cageCells rng =
     (if int (length cs) < targetSize then
        (let neighbors = getUnvisitedNeighbors cs n visited cageCells in
         if neighbors = [] then Inr (cs, rng)
         else (case pick neighbors rng of
                 (None, rng') \<Rightarrow> Inl TypeError
               | (Some nxt, rng') \<Rightarrow>
                   growLoop n visited targetSize (cs @ [nxt]) (insert nxt cageCells) rng'))
      else Inr (cs, rng))"
  by pat_completeness auto
termination
  by (relation "measure (\<lambda>(n, visited, targetSize, cs, cageCells, rng).
                  nat (targetSize - int (length cs)))") auto

definition growCage ::
  "nat \<Rightarrow> nat \<Rightarrow> nat \<Rightarrow> cell set \<Rightarrow> SeededRNG \<Rightarrow> int \<Rightarrow> int
     \<Rightarrow> exn + (cell list \<times> SeededRNG)" where
  "growCage startRow startCol n visited rng mn mx =
     (let start = \<lparr>row = startRow, col = startCol\<rparr>;
          (targetSize, rng1) = nextInt mn mx rng
      in growLoop n visited targetSize [start] {start} rng1)"

text \<open>The cells in the order the two nested \<open>for\<close> loops visit them.\<close>

definition allPositions :: "nat \<Rightarrow> cell list" where
  "allPositions n = concat (map (\<lambda>r. map (\<lambda>c. \<lparr>row = r, col = c\<rparr>) [0..<n]) [0..<n])"

text \<open>
  The loop body of \<open>generateCages\<close> over the remaining positions; the state
  is \<open>(cages, visited, cageId, rng)\<close>.
\<close>

fun cagesLoop ::
  "nat \<Rightarrow> int \<Rightarrow> int \<Rightarrow> cell list \<Rightarrow> cage list \<times> cell set \<times> nat \<times> SeededRNG
     \<Rightarrow> exn + (cage list \<times> cell set \<times> nat \<times> SeededRNG)" where
  "cagesLoop n mn mx [] st = Inr st"
| "cagesLoop n mn mx (p # ps) (cgs, visited, cageId, rng) =
     (if p \<in> visited then cagesLoop n mn mx ps (cgs, visited, cageId, rng)
      else (case growCage (row p) (col p) n visited rng mn mx of
              Inl e \<Rightarrow> Inl e
            | Inr (cs, rng') \<Rightarrow>
                cagesLoop n mn mx ps
                  (cgs @ [\<lparr>cage_id = cageId, cells = cs,
                           clue = \<lparr>target = 0, operation = Add\<rparr>\<rparr>],
                   visited \<union> set cs, cageId + 1, rng')))"

text \<open>
  \<open>generateCages\<close> returns the cage list; the generator it advanced is
  returned beside it.  \<open>allowSingleCell\<close> is destructured and not read again.
\<close>

definition generateCages ::
  "nat \<Rightarrow> SeededRNG \<Rightarrow> PartialCageConfig \<Rightarrow> exn + (cage list \<times> SeededRNG)" where
  "generateCages n rng config =
     (let cfg = mergeConfig config;
          mn = minSize cfg; mx = maxSize cfg; single = allowSingleCell cfg
      in case cagesLoop n mn mx (allPositions n) ([], {}, 0, rng) of
           Inl e \<Rightarrow> Inl e
         | Inr (cgs, visited, cageId, rng') \<Rightarrow> Inr (cgs, rng'))"

text \<open>Vocabulary of the partition properties.\<close>

definition inGrid :: "nat \<Rightarrow> cell \<Rightarrow> bool" where
  "inGrid n c \<longleftrightarrow> row c < n \<and> col c < n"

definition adjacent :: "cell \<Rightarrow> cell \<Rightarrow> bool" where
  "adjacent a b \<longleftrightarrow>
     (row a = row b \<and> (col a = Suc (col b) \<or> col b = Suc (col a))) \<or>
     (col a = col b \<and> (row a = Suc (row b) \<or> row b = Suc (row a)))"

text \<open>
  A set of cells is 4-connected when any two of its cells are joined by a
  path of orthogonal steps that stays inside the set.
\<close>

definition connected4 :: "cell set \<Rightarrow> bool" where
  "connected4 S \<longleftrightarrow>
     (\<forall>a \<in> S. \<forall>b \<in> S. (a, b) \<in> {(x, y). x \<in> S \<and> y \<in> S \<and> adjacent x y}\<^sup>*)"

text \<open>
  The cells claimed when cage \<open>i\<close> stopped growing: those of the cages up to
  and including it.
\<close>

definition claimedUpTo :: "cage list \<Rightarrow> nat \<Rightarrow> cell set" where
  "claimedUpTo cgs i = (\<Union>cg \<in> set (take (Suc i) cgs). set (cells cg))"

definition trapped :: "nat \<Rightarrow> cage list \<Rightarrow> nat \<Rightarrow> bool" where
  "trapped n cgs i \<longleftrightarrow>
     (\<forall>c \<in> set (cells (cgs ! i)). \<forall>k. inGrid n k \<and> adjacent c k \<longrightarrow> k \<in> claimedUpTo cgs i)"

section \<open>Predicates used in the proofs about the partitioner\<close>

text \<open>The accumulator \<open>(neighbors, seen)\<close> of \<open>getUnvisitedNeighbors\<close>.\<close>

definition accOK :: "nat \<Rightarrow> cell set \<Rightarrow> cell set \<Rightarrow> cell list \<times> cell set \<Rightarrow> bool" where
  "accOK n visited cageSet st \<longleftrightarrow>
     snd st = set (fst st) \<and> distinct (fst st) \<and>
     (\<forall>k \<in> set (fst st). inGrid n k \<and> k \<notin> visited \<and> k \<notin> cageSet)"

text \<open>What holds of a cage while it grows.\<close>

definition regionOK :: "nat \<Rightarrow> cell set \<Rightarrow> cell list \<Rightarrow> bool" where
  "regionOK n visited cs \<longleftrightarrow>
     cs \<noteq> [] \<and> distinct cs \<and> set cs \<inter> visited = {} \<and>
     (\<forall>c \<in> set cs. inGrid n c) \<and> connected4 (set cs)"

text \<open>The cells of all cages, and the invariant of the loop of \<open>generateCages\<close>.\<close>

definition cagesUnion :: "cage list \<Rightarrow> cell set" where
  "cagesUnion cgs = (\<Union>cg \<in> set cgs. set (cells cg))"

definition partOK :: "nat \<Rightarrow> int \<Rightarrow> int \<Rightarrow> cage list \<Rightarrow> bool" where
  "partOK n mn mx cgs \<longleftrightarrow>
     distinct (concat (map cells cgs)) \<and>
     (\<forall>cg \<in> set cgs. (\<forall>c \<in> set (cells cg). inGrid n c) \<and> connected4 (set (cells cg)) \<and>
        int (length (cells cg)) \<le> mx) \<and>
     (\<forall>i < length cgs. int (length (cells (cgs ! i))) < mn \<longrightarrow> trapped n cgs i)"

section \<open>Puzzle assembler (engine/generator/PuzzleGenerator)\<close>

record PuzzleConfig =
  cfg_size :: nat
  cfg_difficulty :: difficulty
  cfg_seed :: "js_string option"

text \<open>
  \<open>Date.now()\<close> is the one input of the assembler that is not an argument:
  the \<open>k\<close>-th reading of the clock during a call is \<open>clock k\<close>, a number of
  milliseconds.  \<open>toString\<close> prints it in decimal digits.
\<close>

function decimalDigits :: "nat \<Rightarrow> js_string" where
  "decimalDigits k = (if k < 10 then [48 + k] else decimalDigits (k div 10) @ [48 + k mod 10])"
  by pat_completeness auto
termination
  by (relation "measure (\<lambda>k. k)") auto

definition generatePuzzleId ::
  "difficulty \<Rightarrow> nat \<Rightarrow> nat \<Rightarrow> SeededRNG \<Rightarrow> puzzle_ident \<times> SeededRNG" where
  "generatePuzzleId d n timestamp rng =
     (let (random, rng') = nextInt 1000 9999 rng
      in (\<lparr>id_difficulty = d, id_size = n, id_timestamp = int timestamp, id_random = random\<rparr>,
          rng'))"

text \<open>
  \<open>generatePuzzleSync\<close>.  \<open>seed ?? Date.now().toString()\<close> reads the clock
  only when no seed is given; \<open>generatePuzzleId\<close> reads it once more.
\<close>

definition generatePuzzleSync :: "PuzzleConfig \<Rightarrow> (nat \<Rightarrow> nat) \<Rightarrow> exn + puzzle" where
  "generatePuzzleSync config clock =
     (let n = cfg_size config; d = cfg_difficulty config;
          (seedText, reads) =
             (case cfg_seed config of
                Some s \<Rightarrow> (s, 0::nat)
              | None \<Rightarrow> (decimalDigits (clock 0), 1));
          rng = createRNG (SeedString seedText);
          preset = getDifficultyPreset d;
          (sol, rng1) = generateLatinSquare n rng
      in case generateCages n rng1
                \<lparr>minSize_opt = Some (minCageSize preset),
                 maxSize_opt = Some (maxCageSize preset),
                 allowSingleCell_opt = Some (singleCellRate preset > 0)\<rparr> of
           Inl e \<Rightarrow> Inl e
         | Inr (cgs, rng2) \<Rightarrow>
             (case assignClues cgs sol (operations preset) of
                Inl e \<Rightarrow> Inl e
              | Inr cgs' \<Rightarrow>
                  Inr \<lparr>puzzle_id = fst (generatePuzzleId d n (clock reads) rng2),
                       psize = n, difficulty = d, cages = cgs', solution = sol,
                       puzzle_seed = cfg_seed config\<rparr>))"

section \<open>Constraint solver (engine/solver/BacktrackSolver)\<close>

definition createEmptyGrid :: "nat \<Rightarrow> grid" where
  "createEmptyGrid n = replicate n (replicate n 0)"

text \<open>
  \<open>grid[row][col] = value\<close>, used by the solver on its own \<open>n x n\<close> grid at
  a position inside it.
\<close>

definition setCell :: "grid \<Rightarrow> nat \<Rightarrow> nat \<Rightarrow> int \<Rightarrow> grid" where
  "setCell g r c v = g[r := (g ! r)[c := v]]"

text \<open>
  The two loops of \<open>isValidPlacement\<close>, each returning at the first clash;
  the index list is \<open>[0, size)\<close>, and \<open>c !== col && grid[row][c] === value\<close>
  reads the grid only when \<open>c\<close> differs from \<open>col\<close>.
\<close>

fun rowClash :: "grid \<Rightarrow> nat \<Rightarrow> nat \<Rightarrow> int \<Rightarrow> nat list \<Rightarrow> exn + bool" where
  "rowClash g r c v [] = Inr False"
| "rowClash g r c v (k # ks) =
     (if k \<noteq> c then
        (case readCell g r k of
           Inl e \<Rightarrow> Inl e
         | Inr x \<Rightarrow> if x = Some v then Inr True else rowClash g r c v ks)
      else rowClash g r c v ks)"

fun colClash :: "grid \<Rightarrow> nat \<Rightarrow> nat \<Rightarrow> int \<Rightarrow> nat list \<Rightarrow> exn + bool" where
  "colClash g r c v [] = Inr False"
| "colClash g r c v (k # ks) =
     (if k \<noteq> r then
        (case readCell g k c of
           Inl e \<Rightarrow> Inl e
         | Inr x \<Rightarrow> if x = Some v then Inr True else colClash g r c v ks)
      else colClash g r c v ks)"

definition isValidPlacement :: "grid \<Rightarrow> nat \<Rightarrow> nat \<Rightarrow> int \<Rightarrow> nat \<Rightarrow> exn + bool" where
  "isValidPlacement g r c v n =
     (case rowClash g r c v [0..<n] of
        Inl e \<Rightarrow> Inl e
      | Inr True \<Rightarrow> Inr False
      | Inr False \<Rightarrow>
          (case colClash g r c v [0..<n] of
             Inl e \<Rightarrow> Inl e
           | Inr clash \<Rightarrow> Inr (\<not> clash)))"

text \<open>
  Values read from a grid are \<open>int option\<close>, \<open>None\<close> for \<open>undefined\<close>.
  \<open>values.reduce((a, b) => a + b, 0)\<close> and its product twin turn into
  \<open>NaN\<close> (\<open>None\<close>) as soon as an operand is no number, and every comparison
  with \<open>NaN\<close> or \<open>undefined\<close> is false.
\<close>

definition jsSum :: "int option list \<Rightarrow> int option" where
  "jsSum vs = foldl (\<lambda>a b. case (a, b) of (Some x, Some y) \<Rightarrow> Some (x + y) | _ \<Rightarrow> None)
                (Some 0) vs"

definition jsProduct :: "int option list \<Rightarrow> int option" where
  "jsProduct vs = foldl (\<lambda>a b. case (a, b) of (Some x, Some y) \<Rightarrow> Some (x * y) | _ \<Rightarrow> None)
                    (Some 1) vs"

definition isPartialCageValid :: "cage \<Rightarrow> int option list \<Rightarrow> bool" where
  "isPartialCageValid cg vals =
     (case operation (clue cg) of
        NoOp \<Rightarrow> length vals = 0 \<or> vals ! 0 = Some (target (clue cg))
      | Add \<Rightarrow> (case jsSum vals of Some s \<Rightarrow> s \<le> target (clue cg) | None \<Rightarrow> False)
      | Sub \<Rightarrow> True
      | Mul \<Rightarrow> (case jsProduct vals of Some q \<Rightarrow> q \<le> target (clue cg) | None \<Rightarrow> False)
      | Div \<Rightarrow> True)"

text \<open>
  \<open>larger / smaller === target\<close> compares the exact quotient of two
  integers with an integer.
\<close>

definition isFullCageValid :: "cage \<Rightarrow> int option list \<Rightarrow> bool" where
  "isFullCageValid cg vals =
     (case operation (clue cg) of
        NoOp \<Rightarrow> length vals = 1 \<and> vals ! 0 = Some (target (clue cg))
      | Add \<Rightarrow> jsSum vals = Some (target (clue cg))
      | Sub \<Rightarrow>
          (if length vals \<noteq> 2 then False
           else (case (vals ! 0, vals ! 1) of
                   (Some a, Some b) \<Rightarrow> \<bar>a - b\<bar> = target (clue cg)
                 | _ \<Rightarrow> False))
      | Mul \<Rightarrow> jsProduct vals = Some (target (clue cg))
      | Div \<Rightarrow>
          (if length vals \<noteq> 2 then False
           else (case (vals ! 0, vals ! 1) of
                   (Some a, Some b) \<Rightarrow>
                     (let larger = max a b; smaller = min a b
                      in smaller \<noteq> 0 \<and>
                         (of_int larger :: rat) / of_int smaller = of_int (target (clue cg)))
                 | _ \<Rightarrow> False)))"

text \<open>
  \<open>isCageSatisfied\<close> reads every cell of the cage (a missing row throws),
  keeps the values that are not \<open>0\<close>, and decides.
\<close>

definition isCageSatisfied :: "cage \<Rightarrow> grid \<Rightarrow> bool \<Rightarrow> exn + bool" where
  "isCageSatisfied cg g allowPartial =
     (case readCells g (cells cg) of
        Inl e \<Rightarrow> Inl e
      | Inr vs \<Rightarrow>
          (let vals = filter (\<lambda>v. v \<noteq> Some 0) vs;
               hasEmpty = (Some 0 \<in> set vs)
           in Inr (if hasEmpty
                   then (if allowPartial then isPartialCageValid cg vals else True)
                   else isFullCageValid cg vals)))"

text \<open>The first cage, in list order, one of whose cells is \<open>(row, col)\<close>.\<close>

definition getCageForCell :: "cage list \<Rightarrow> nat \<Rightarrow> nat \<Rightarrow> cage option" where
  "getCageForCell cgs r c = find (\<lambda>cg. \<exists>x \<in> set (cells cg). row x = r \<and> col x = c) cgs"

text \<open>
  \<open>backtrack\<close> and the \<open>for (value = 1; value <= size; value++)\<close> loop inside
  it.  Both return the answer together with the grid as they leave it.
\<close>

function backtrack :: "puzzle \<Rightarrow> grid \<Rightarrow> nat \<Rightarrow> exn + (bool \<times> grid)"
  and tryValues :: "puzzle \<Rightarrow> grid \<Rightarrow> nat \<Rightarrow> nat \<Rightarrow> exn + (bool \<times> grid)" where
  "backtrack p g cellIndex =
     (if cellIndex \<ge> psize p * psize p then Inr (True, g)
      else tryValues p g cellIndex 1)"
| "tryValues p g cellIndex v =
     (if v \<le> psize p then
        (let r = cellIndex div psize p; c = cellIndex mod psize p in
         case isValidPlacement g r c (int v) (psize p) of
           Inl e \<Rightarrow> Inl e
         | Inr False \<Rightarrow> tryValues p g cellIndex (v + 1)
         | Inr True \<Rightarrow>
             (let g1 = setCell g r c (int v) in
              case getCageForCell (cages p) r c of
                None \<Rightarrow> tryValues p (setCell g1 r c 0) cellIndex (v + 1)
              | Some cg \<Rightarrow>
                  (case isCageSatisfied cg g1 True of
                     Inl e \<Rightarrow> Inl e
                   | Inr False \<Rightarrow> tryValues p (setCell g1 r c 0) cellIndex (v + 1)
                   | Inr True \<Rightarrow>
                       (case backtrack p g1 (cellIndex + 1) of
                          Inl e \<Rightarrow> Inl e
                        | Inr (True, g2) \<Rightarrow> Inr (True, g2)
                        | Inr (False, g2) \<Rightarrow>
                            tryValues p (setCell g2 r c 0) cellIndex (v + 1)))))
      else Inr (False, g))"
  by pat_completeness auto
termination
  by (relation "inv_image (less_than <*lex*> less_than) (\<lambda>x. case x of
         Inl (p, g, i) \<Rightarrow>
           (if i < psize p * psize p then (psize p * psize p - i, psize p + 2) else (0, 0))
       | Inr (p, g, i, v) \<Rightarrow> (psize p * psize p - i, psize p + 2 - v))")
    auto

text \<open>\<open>solvePuzzle\<close>: the filled grid, or \<open>null\<close> (\<open>None\<close>).\<close>

definition solvePuzzle :: "puzzle \<Rightarrow> exn + grid option" where
  "solvePuzzle p =
     (case backtrack p (createEmptyGrid (psize p)) 0 of
        Inl e \<Rightarrow> Inl e
      | Inr (True, g) \<Rightarrow> Inr (Some g)
      | Inr (False, g) \<Rightarrow> Inr None)"

text \<open>
  \<open>countSolutions\<close> of \<open>hasUniqueSolution\<close>, with the captured variables
  \<open>grid\<close> and \<open>solutionCount\<close> as state.
\<close>

function countSolutions :: "puzzle \<Rightarrow> grid \<times> nat \<Rightarrow> nat \<Rightarrow> exn + (bool \<times> grid \<times> nat)"
  and countValues :: "puzzle \<Rightarrow> grid \<times> nat \<Rightarrow> nat \<Rightarrow> nat \<Rightarrow> exn + (bool \<times> grid \<times> nat)" where
  "countSolutions p st cellIndex =
     (if cellIndex \<ge> psize p * psize p
      then Inr (snd st + 1 \<ge> 2, fst st, snd st + 1)
      else countValues p st cellIndex 1)"
| "countValues p st cellIndex v =
     (if v \<le> psize p then
        (let r = cellIndex div psize p; c = cellIndex mod psize p in
         case isValidPlacement (fst st) r c (int v) (psize p) of
           Inl e \<Rightarrow> Inl e
         | Inr False \<Rightarrow> countValues p st cellIndex (v + 1)
         | Inr True \<Rightarrow>
             (let g1 = setCell (fst st) r c (int v) in
              case (case getCageForCell (cages p) r c of
                      None \<Rightarrow> Inr True
                    | Some cg \<Rightarrow> isCageSatisfied cg g1 True) of
                Inl e \<Rightarrow> Inl e
              | Inr False \<Rightarrow> countValues p (setCell g1 r c 0, snd st) cellIndex (v + 1)
              | Inr True \<Rightarrow>
                  (case countSolutions p (g1, snd st) (cellIndex + 1) of
                     Inl e \<Rightarrow> Inl e
                   | Inr (True, g2, k) \<Rightarrow> Inr (True, setCell g2 r c 0, k)
                   | Inr (False, g2, k) \<Rightarrow>
                       countValues p (setCell g2 r c 0, k) cellIndex (v + 1))))
      else Inr (False, fst st, snd st))"
  by pat_completeness auto
termination
  by (relation "inv_image (less_than <*lex*> less_than) (\<lambda>x. case x of
         Inl (p, st, i) \<Rightarrow>
           (if i < psize p * psize p then (psize p * psize p - i, psize p + 2) else (0, 0))
       | Inr (p, st, i, v) \<Rightarrow> (psize p * psize p - i, psize p + 2 - v))")
    auto

text \<open>
  \<open>hasUniqueSolution\<close>: the value the promise resolves to.  A throw inside
  the timer callback leaves the promise unresolved.
\<close>

definition hasUniqueSolution :: "puzzle \<Rightarrow> exn + bool" where
  "hasUniqueSolution p =
     (case countSolutions p (createEmptyGrid (psize p), 0) 0 of
        Inl e \<Rightarrow> Inl e
      | Inr (stop, g, solutionCount) \<Rightarrow> Inr (solutionCount = 1))"

section \<open>Generation with the uniqueness check (engine/generator/PuzzleGenerator)\<close>

text \<open>
  The loop of \<open>generatePuzzle\<close>.  Every attempt draws a grid, cages and an
  identifier from the one generator \<open>rng\<close>, and reads the clock once;
  \<open>left\<close> is \<open>maxAttempts - attempts\<close>.  The uniqueness check is skipped for sizes
  above 7.  The result is what becomes of the promise: \<open>Inr\<close> the puzzle it
  resolves to; \<open>Inl GenerationFailed\<close> the error thrown after the last attempt;
  another \<open>Inl e\<close> an exception of one of the steps (thrown by
  \<open>hasUniqueSolution\<close> it leaves the promise unresolved).
\<close>

fun generateLoop ::
  "nat \<Rightarrow> PuzzleConfig \<Rightarrow> (nat \<Rightarrow> nat) \<Rightarrow> nat \<Rightarrow> SeededRNG \<Rightarrow> exn + puzzle" where
  "generateLoop 0 config clock reads rng = Inl GenerationFailed"
| "generateLoop (Suc left) config clock reads rng =
     (let n = cfg_size config; d = cfg_difficulty config;
          preset = getDifficultyPreset d;
          (sol, rng1) = generateLatinSquare n rng
      in case generateCages n rng1
                \<lparr>minSize_opt = Some (minCageSize preset),
                 maxSize_opt = Some (maxCageSize preset),
                 allowSingleCell_opt = Some (singleCellRate preset > 0)\<rparr> of
           Inl e \<Rightarrow> Inl e
         | Inr (cgs, rng2) \<Rightarrow>
             (case assignClues cgs sol (operations preset) of
                Inl e \<Rightarrow> Inl e
              | Inr cgs' \<Rightarrow>
                  (let (puzzleId, rng3) = generatePuzzleId d n (clock reads) rng2;
                       p = \<lparr>puzzle_id = puzzleId, psize = n, difficulty = d, cages = cgs',
                            solution = sol, puzzle_seed = cfg_seed config\<rparr>
                   in if n \<le> 7
                      then (case hasUniqueSolution p of
                              Inl e \<Rightarrow> Inl e
                            | Inr hasUnique \<Rightarrow>
                                if hasUnique then Inr p
                                else generateLoop left config clock (reads + 1) rng3)
                      else Inr p)))"

definition generatePuzzle :: "PuzzleConfig \<Rightarrow> (nat \<Rightarrow> nat) \<Rightarrow> exn + puzzle" where
  "generatePuzzle config clock =
     (let (seedText, reads) =
             (case cfg_seed config of
                Some s \<Rightarrow> (s, 0::nat)
              | None \<Rightarrow> (decimalDigits (clock 0), 1))
      in generateLoop 10 config clock reads (createRNG (SeedString seedText)))"

text \<open>The part of an outcome that the puzzle's content makes up: grid and cages.\<close>

definition content :: "exn + puzzle \<Rightarrow> exn + grid \<times> cage list" where
  "content r = (case r of Inl e \<Rightarrow> Inl e | Inr p \<Rightarrow> Inr (solution p, cages p))"

section \<open>Move validator (engine/validation/Validator)\<close>

text \<open>
  The validator works on the caller's grid, an array of row arrays, and
  writes into a copy of it.  To tell the copy from the original the row
  arrays live in a store: an address is an index into the store, a grid is
  the list of the addresses of its rows (two entries may name the same row
  array), and an element of a row is a number or \<open>undefined\<close> (\<open>None\<close>).  The
  puzzle is passed by value: no method of the class assigns to it.
\<close>

type_synonym rowArray = "int option list"
type_synonym store = "rowArray list"
type_synonym gridRef = "nat list"

record ValidationResult =
  valid :: bool
  conflicts :: "cell list"
  cageErrors :: "cell list"

text \<open>\<open>grid[r][c]\<close>: a \<open>TypeError\<close> when \<open>grid[r]\<close> is no row array.\<close>

definition storeRead :: "store \<Rightarrow> gridRef \<Rightarrow> nat \<Rightarrow> nat \<Rightarrow> exn + int option" where
  "storeRead h g r c =
     (if r < length g \<and> g ! r < length h
      then Inr (if c < length (h ! (g ! r)) then h ! (g ! r) ! c else None)
      else Inl TypeError)"

text \<open>
  \<open>row[c] = v\<close> on a JavaScript array: inside the array the element is
  replaced, beyond its end the array grows and the gap reads \<open>undefined\<close>.
\<close>

definition writeAt :: "rowArray \<Rightarrow> nat \<Rightarrow> int \<Rightarrow> rowArray" where
  "writeAt rw c v =
     (if c < length rw then rw[c := Some v]
      else rw @ replicate (c - length rw) None @ [Some v])"

definition storeWrite :: "store \<Rightarrow> gridRef \<Rightarrow> nat \<Rightarrow> nat \<Rightarrow> int \<Rightarrow> exn + store" where
  "storeWrite h g r c v =
     (if r < length g \<and> g ! r < length h
      then Inr (h[g ! r := writeAt (h ! (g ! r)) c v])
      else Inl TypeError)"

text \<open>
  \<open>grid.map(row => [...row])\<close>: every row is copied to a fresh address.
\<close>

definition copyRows :: "store \<Rightarrow> gridRef \<Rightarrow> exn + (store \<times> gridRef)" where
  "copyRows h g =
     (if list_all (\<lambda>a. a < length h) g
      then Inr (h @ map (\<lambda>a. h ! a) g, [length h..<length h + length g])
      else Inl TypeError)"

text \<open>The two loops of \<open>findConflicts\<close>; neither returns early.\<close>

fun rowConflicts :: "store \<Rightarrow> gridRef \<Rightarrow> cell \<Rightarrow> int \<Rightarrow> nat list \<Rightarrow> exn + cell list" where
  "rowConflicts h g cl v [] = Inr []"
| "rowConflicts h g cl v (k # ks) =
     (if k \<noteq> col cl then
        (case storeRead h g (row cl) k of
           Inl e \<Rightarrow> Inl e
         | Inr x \<Rightarrow>
             (case rowConflicts h g cl v ks of
                Inl e \<Rightarrow> Inl e
              | Inr rest \<Rightarrow>
                  Inr (if x = Some v then \<lparr>row = row cl, col = k\<rparr> # rest else rest)))
      else rowConflicts h g cl v ks)"

fun colConflicts :: "store \<Rightarrow> gridRef \<Rightarrow> cell \<Rightarrow> int \<Rightarrow> nat list \<Rightarrow> exn + cell list" where
  "colConflicts h g cl v [] = Inr []"
| "colConflicts h g cl v (k # ks) =
     (if k \<noteq> row cl then
        (case storeRead h g k (col cl) of
           Inl e \<Rightarrow> Inl e
         | Inr x \<Rightarrow>
             (case colConflicts h g cl v ks of
                Inl e \<Rightarrow> Inl e
              | Inr rest \<Rightarrow>
                  Inr (if x = Some v then \<lparr>row = k, col = col cl\<rparr> # rest else rest)))
      else colConflicts h g cl v ks)"

definition findConflicts :: "puzzle \<Rightarrow> store \<Rightarrow> gridRef \<Rightarrow> cell \<Rightarrow> int \<Rightarrow> exn + cell list" where
  "findConflicts p h g cl v =
     (case rowConflicts h g cl v [0..<psize p] of
        Inl e \<Rightarrow> Inl e
      | Inr a \<Rightarrow>
          (case colConflicts h g cl v [0..<psize p] of
             Inl e \<Rightarrow> Inl e
           | Inr b \<Rightarrow> Inr (a @ b)))"

definition findCage :: "puzzle \<Rightarrow> cell \<Rightarrow> cage option" where
  "findCage p cl =
     find (\<lambda>cg. \<exists>x \<in> set (cells cg). row x = row cl \<and> col x = col cl) (cages p)"

text \<open>
  \<open>cage.cells.every(c => tempGrid[c.row][c.col] !== 0)\<close> stops at the first
  empty cell.
\<close>

fun everyFilled :: "store \<Rightarrow> gridRef \<Rightarrow> cell list \<Rightarrow> exn + bool" where
  "everyFilled h g [] = Inr True"
| "everyFilled h g (x # xs) =
     (case storeRead h g (row x) (col x) of
        Inl e \<Rightarrow> Inl e
      | Inr y \<Rightarrow> if y \<noteq> Some 0 then everyFilled h g xs else Inr False)"

fun storeReadCells :: "store \<Rightarrow> gridRef \<Rightarrow> cell list \<Rightarrow> exn + int option list" where
  "storeReadCells h g [] = Inr []"
| "storeReadCells h g (x # xs) =
     (case storeRead h g (row x) (col x) of
        Inl e \<Rightarrow> Inl e
      | Inr y \<Rightarrow>
          (case storeReadCells h g xs of Inl e \<Rightarrow> Inl e | Inr ys \<Rightarrow> Inr (y # ys)))"

text \<open>The \<open>switch\<close> of \<open>validateCage\<close>, on the values it has read.\<close>

definition validateValues :: "cage \<Rightarrow> int option list \<Rightarrow> bool" where
  "validateValues cg vals =
     (case operation (clue cg) of
        NoOp \<Rightarrow> length vals = 1 \<and> vals ! 0 = Some (target (clue cg))
      | Add \<Rightarrow> jsSum vals = Some (target (clue cg))
      | Sub \<Rightarrow>
          (if length vals \<noteq> 2 then False
           else (case (vals ! 0, vals ! 1) of
                   (Some a, Some b) \<Rightarrow> \<bar>a - b\<bar> = target (clue cg)
                 | _ \<Rightarrow> False))
      | Mul \<Rightarrow> jsProduct vals = Some (target (clue cg))
      | Div \<Rightarrow>
          (if length vals \<noteq> 2 then False
           else (case (vals ! 0, vals ! 1) of
                   (Some a, Some b) \<Rightarrow>
                     (let larger = max a b; smaller = min a b
                      in smaller \<noteq> 0 \<and>
                         (of_int larger :: rat) / of_int smaller = of_int (target (clue cg)))
                 | _ \<Rightarrow> False)))"

definition validateCage :: "cage \<Rightarrow> store \<Rightarrow> gridRef \<Rightarrow> exn + bool" where
  "validateCage cg h g =
     (case storeReadCells h g (cells cg) of
        Inl e \<Rightarrow> Inl e
      | Inr vals \<Rightarrow> Inr (validateValues cg vals))"

text \<open>
  \<open>findCageErrors\<close> returns the store as it leaves it beside its result
  (or the exception it throws).
\<close>

definition findCageErrors ::
  "puzzle \<Rightarrow> store \<Rightarrow> gridRef \<Rightarrow> cell \<Rightarrow> int \<Rightarrow> store \<times> (exn + cell list)" where
  "findCageErrors p h g cl v =
     (case findCage p cl of
        None \<Rightarrow> (h, Inr [])
      | Some cg \<Rightarrow>
          (case copyRows h g of
             Inl e \<Rightarrow> (h, Inl e)
           | Inr (h1, tempGrid) \<Rightarrow>
               (case storeWrite h1 tempGrid (row cl) (col cl) v of
                  Inl e \<Rightarrow> (h1, Inl e)
                | Inr h2 \<Rightarrow>
                    (case everyFilled h2 tempGrid (cells cg) of
                       Inl e \<Rightarrow> (h2, Inl e)
                     | Inr False \<Rightarrow> (h2, Inr [])
                     | Inr True \<Rightarrow>
                         (case validateCage cg h2 tempGrid of
                            Inl e \<Rightarrow> (h2, Inl e)
                          | Inr ok \<Rightarrow> (h2, Inr (if \<not> ok then cells cg else [])))))))"

definition isValidMove ::
  "puzzle \<Rightarrow> store \<Rightarrow> gridRef \<Rightarrow> cell \<Rightarrow> int \<Rightarrow> store \<times> (exn + ValidationResult)" where
  "isValidMove p h g cl v =
     (case findConflicts p h g cl v of
        Inl e \<Rightarrow> (h, Inl e)
      | Inr cs \<Rightarrow>
          (case findCageErrors p h g cl v of
             (h', Inl e) \<Rightarrow> (h', Inl e)
           | (h', Inr es) \<Rightarrow>
               (h', Inr \<lparr>valid = (length cs = 0 \<and> length es = 0),
                         conflicts = cs, cageErrors = es\<rparr>)))"

text \<open>
  The value at cell \<open>x\<close> once the candidate \<open>v\<close> is tentatively placed at
  \<open>cl\<close> in the caller's grid: \<open>v\<close> at \<open>cl\<close>, the caller's value elsewhere.
\<close>

definition afterMove :: "store \<Rightarrow> gridRef \<Rightarrow> cell \<Rightarrow> int \<Rightarrow> cell \<Rightarrow> int option" where
  "afterMove h g cl v x =
     (if row x = row cl \<and> col x = col cl then Some v
      else (case storeRead h g (row x) (col x) of Inl e \<Rightarrow> None | Inr y \<Rightarrow> y))"

text \<open>The cage errors the specification describes for a move.\<close>

definition spec_cageErrors :: "puzzle \<Rightarrow> store \<Rightarrow> gridRef \<Rightarrow> cell \<Rightarrow> int \<Rightarrow> cell list" where
  "spec_cageErrors p h g cl v =
     (case findCage p cl of
        None \<Rightarrow> []
      | Some cg \<Rightarrow>
          if list_all (\<lambda>x. afterMove h g cl v x \<noteq> Some 0) (cells cg) \<and>
             \<not> validateValues cg (map (afterMove h g cl v) (cells cg))
          then cells cg else [])"

text \<open>A grid of \<open>n\<close> rows that are arrays of the store.\<close>

definition gridInStore :: "nat \<Rightarrow> store \<Rightarrow> gridRef \<Rightarrow> bool" where
  "gridInStore n h g \<longleftrightarrow> length g = n \<and> list_all (\<lambda>a. a < length h) g"

text \<open>
  The store and the temporary grid of \<open>findCageErrors\<close> after the copy and
  the tentative write.
\<close>

definition tempStore :: "store \<Rightarrow> gridRef \<Rightarrow> cell \<Rightarrow> int \<Rightarrow> store" where
  "tempStore h g cl v =
     (h @ map (\<lambda>a. h ! a) g)[length h + row cl := writeAt (h ! (g ! row cl)) (col cl) v]"

definition tempGridOf :: "store \<Rightarrow> gridRef \<Rightarrow> gridRef" where
  "tempGridOf h g = [length h..<length h + length g]"

section \<open>Vocabulary for the properties of the solver\<close>

definition gridShape :: "nat \<Rightarrow> grid \<Rightarrow> bool" where
  "gridShape n g \<longleftrightarrow> length g = n \<and> (\<forall>r < n. length (g ! r) = n)"

text \<open>Cells are numbered in row-major order, as \<open>cellIndex\<close> numbers them.\<close>

definition cellValue :: "nat \<Rightarrow> grid \<Rightarrow> nat \<Rightarrow> int" where
  "cellValue n g k = g ! (k div n) ! (k mod n)"

text \<open>
  The grid the search holds when it has placed the first \<open>k\<close> cells of the
  full assignment \<open>h\<close>: those cells as in \<open>h\<close>, the others \<open>0\<close>.
\<close>

definition prefixGrid :: "nat \<Rightarrow> grid \<Rightarrow> nat \<Rightarrow> grid" where
  "prefixGrid n h k =
     map (\<lambda>r. map (\<lambda>c. if r * n + c < k then h ! r ! c else 0) [0..<n]) [0..<n]"

text \<open>
  The checks the search makes when it tries value \<open>v\<close> at cell \<open>k\<close> of grid
  \<open>g\<close>: the row and column check, then the cage check on the grid with the
  value written.  \<open>solvePuzzle\<close> goes on only if the cell has a cage
  (\<open>strict\<close>); \<open>hasUniqueSolution\<close> also goes on if it has none.
\<close>

definition stepOK :: "bool \<Rightarrow> puzzle \<Rightarrow> grid \<Rightarrow> nat \<Rightarrow> int \<Rightarrow> bool" where
  "stepOK strict p g k v \<longleftrightarrow>
     isValidPlacement g (k div psize p) (k mod psize p) v (psize p) = Inr True \<and>
     (case getCageForCell (cages p) (k div psize p) (k mod psize p) of
        None \<Rightarrow> \<not> strict
      | Some cg \<Rightarrow>
          isCageSatisfied cg (setCell g (k div psize p) (k mod psize p) v) True = Inr True)"

text \<open>
  A full assignment the search admits: an \<open>n x n\<close> grid of values in
  \<open>1..n\<close> each of which passes the checks of the search at the moment the
  search would place it.
\<close>

definition okAt :: "bool \<Rightarrow> puzzle \<Rightarrow> grid \<Rightarrow> nat \<Rightarrow> bool" where
  "okAt strict p h k \<longleftrightarrow>
     1 \<le> cellValue (psize p) h k \<and> cellValue (psize p) h k \<le> int (psize p) \<and>
     stepOK strict p (prefixGrid (psize p) h k) k (cellValue (psize p) h k)"

definition admits :: "bool \<Rightarrow> puzzle \<Rightarrow> grid \<Rightarrow> bool" where
  "admits strict p h \<longleftrightarrow>
     gridShape (psize p) h \<and> (\<forall>k < psize p * psize p. okAt strict p h k)"

text \<open>
  The admitted completions of a partial grid, in the order a depth-first
  search meets them.
\<close>

function completions :: "bool \<Rightarrow> puzzle \<Rightarrow> grid \<Rightarrow> nat \<Rightarrow> grid list" where
  "completions strict p g k =
     (if k \<ge> psize p * psize p then [g]
      else concat (map (\<lambda>v. if stepOK strict p g k (int v)
                            then completions strict p
                                   (setCell g (k div psize p) (k mod psize p) (int v)) (k + 1)
                            else [])
                       [1..<psize p + 1]))"
  by pat_completeness auto
termination
  by (relation "measure (\<lambda>(strict, p, g, k). psize p * psize p - k)") auto

text \<open>Every cell a cage lists is a cell of the grid.\<close>

definition cellsInGrid :: "puzzle \<Rightarrow> bool" where
  "cellsInGrid p \<longleftrightarrow>
     (\<forall>cg \<in> set (cages p). \<forall>x \<in> set (cells cg). row x < psize p \<and> col x < psize p)"

text \<open>Every row a cage names is a row of the grid.\<close>

definition rowsInGrid :: "puzzle \<Rightarrow> bool" where
  "rowsInGrid p \<longleftrightarrow> (\<forall>cg \<in> set (cages p). \<forall>x \<in> set (cells cg). row x < psize p)"

text \<open>No cell is listed by two cages.\<close>

definition cagesDisjoint :: "puzzle \<Rightarrow> bool" where
  "cagesDisjoint p \<longleftrightarrow>
     (\<forall>cg1 \<in> set (cages p). \<forall>cg2 \<in> set (cages p).
        (\<exists>x \<in> set (cells cg1). \<exists>y \<in> set (cells cg2). row x = row y \<and> col x = col y)
          \<longrightarrow> cg1 = cg2)"

text \<open>
  The exact arithmetic constraint of a cage on a list of integers, as the
  specification words it.
\<close>

definition exactConstraint :: "clue \<Rightarrow> int list \<Rightarrow> bool" where
  "exactConstraint cl vals \<longleftrightarrow>
     (case operation cl of
        NoOp \<Rightarrow> vals = [target cl]
      | Add \<Rightarrow> sum_list vals = target cl
      | Sub \<Rightarrow> (\<exists>a b. vals = [a, b] \<and> \<bar>a - b\<bar> = target cl)
      | Mul \<Rightarrow> prod_list vals = target cl
      | Div \<Rightarrow> (\<exists>a b. vals = [a, b] \<and> min a b \<noteq> 0 \<and> max a b = target cl * min a b))"

definition cageValues :: "cage \<Rightarrow> grid \<Rightarrow> int list" where
  "cageValues cg h = map (\<lambda>x. h ! row x ! col x) (cells cg)"

text \<open>The cells from \<open>k\<close> on are empty.\<close>

definition zeroFrom :: "nat \<Rightarrow> grid \<Rightarrow> nat \<Rightarrow> bool" where
  "zeroFrom n g k \<longleftrightarrow> gridShape n g \<and> prefixGrid n g k = g"

text \<open>From \<open>k\<close> on, \<open>h\<close> passes the checks of the search.\<close>

definition okFrom :: "bool \<Rightarrow> puzzle \<Rightarrow> grid \<Rightarrow> nat \<Rightarrow> bool" where
  "okFrom strict p h k \<longleftrightarrow> (\<forall>j. k \<le> j \<and> j < psize p * psize p \<longrightarrow> okAt strict p h j)"

text \<open>
  The admitted completions that put one of the values \<open>v, v + 1, ..., n\<close> at
  cell \<open>k\<close>: what the value loop still has to go through.
\<close>

definition candidates :: "bool \<Rightarrow> puzzle \<Rightarrow> grid \<Rightarrow> nat \<Rightarrow> nat \<Rightarrow> grid list" where
  "candidates strict p g k v =
     concat (map (\<lambda>v. if stepOK strict p g k (int v)
                       then completions strict p
                              (setCell g (k div psize p) (k mod psize p) (int v)) (k + 1)
                       else [])
                 [v..<psize p + 1])"

text \<open>
  What a search that stops at the first admitted completion returns: that
  completion, or failure and the grid it started from.
\<close>

definition firstOf :: "grid \<Rightarrow> grid list \<Rightarrow> bool \<times> grid" where
  "firstOf g hs = (case hs of [] \<Rightarrow> (False, g) | h # _ \<Rightarrow> (True, h))"

section \<open>Concrete puzzles used as witnesses\<close>

definition mkCage :: "nat \<Rightarrow> cell list \<Rightarrow> int \<Rightarrow> operation \<Rightarrow> cage" where
  "mkCage i cs t op = \<lparr>cage_id = i, cells = cs, clue = \<lparr>target = t, operation = op\<rparr>\<rparr>"

definition cellAt :: "nat \<Rightarrow> nat \<Rightarrow> cell" where
  "cellAt r c = \<lparr>row = r, col = c\<rparr>"

definition mkPuzzle :: "nat \<Rightarrow> cage list \<Rightarrow> grid \<Rightarrow> puzzle" where
  "mkPuzzle n cs sol =
     \<lparr>puzzle_id = \<lparr>id_difficulty = Easy, id_size = n, id_timestamp = 0, id_random = 1000\<rparr>,
      psize = n, difficulty = Easy, cages = cs, solution = sol, puzzle_seed = None\<rparr>"

text \<open>The fixture of the difficulty tests: four cages on a 4 x 4 grid.\<close>

definition difficultyFixture :: puzzle where
  "difficultyFixture = mkPuzzle 4
     [mkCage 1 [cellAt 0 0] 1 NoOp,
      mkCage 2 [cellAt 0 1, cellAt 0 2] 5 Add,
      mkCage 3 [cellAt 1 0, cellAt 1 1] 1 Sub,
      mkCage 4 [cellAt 2 0, cellAt 2 1, cellAt 2 2] 24 Mul]
     [[1, 2, 3, 4], [2, 3, 4, 1], [3, 4, 1, 2], [4, 1, 2, 3]]"

text \<open>
  \<open>singleCellPuzzle([[1, 2], [2, 1]])\<close> of the solver tests: every cell its
  own cage, clued with its value.
\<close>

definition singleCellPuzzle2 :: puzzle where
  "singleCellPuzzle2 = mkPuzzle 2
     [mkCage 0 [cellAt 0 0] 1 NoOp, mkCage 1 [cellAt 0 1] 2 NoOp,
      mkCage 2 [cellAt 1 0] 2 NoOp, mkCage 3 [cellAt 1 1] 1 NoOp]
     [[1, 2], [2, 1]]"

text \<open>
  The 2 x 2 puzzle of the solver tests with one cage per row, each clued
  \<open>+3\<close>.
\<close>

definition twoCagePuzzle :: puzzle where
  "twoCagePuzzle = mkPuzzle 2
     [mkCage 0 [cellAt 0 0, cellAt 0 1] 3 Add, mkCage 1 [cellAt 1 0, cellAt 1 1] 3 Add]
     [[1, 2], [2, 1]]"

text \<open>
  Malformed puzzles: a 2 x 2 puzzle whose only cage lists a cell below the
  grid; a 1 x 1 puzzle with two cages on its cell; a 1 x 1 puzzle with no
  cage; a 2 x 2 puzzle whose last cell has no cage.
\<close>

definition badRowPuzzle :: puzzle where
  "badRowPuzzle = mkPuzzle 2 [mkCage 0 [cellAt 0 0, cellAt 2 0] 3 Add] [[1, 2], [2, 1]]"

definition uncoveredPuzzle :: puzzle where
  "uncoveredPuzzle = mkPuzzle 2
     [mkCage 0 [cellAt 0 0] 1 NoOp, mkCage 1 [cellAt 0 1] 2 NoOp, mkCage 2 [cellAt 1 0] 2 NoOp]
     [[1, 2], [2, 1]]"

definition overlapPuzzle :: puzzle where
  "overlapPuzzle = mkPuzzle 1 [mkCage 0 [cellAt 0 0] 1 NoOp, mkCage 1 [cellAt 0 0] 2 NoOp] [[1]]"

definition noCagePuzzle :: puzzle where
  "noCagePuzzle = mkPuzzle 1 [] [[1]]"

text \<open>
  The fixture of the validator tests, and the store and grid of its
  subtraction test: an empty 3 x 3 grid with \<open>grid[2][0] = 3\<close>.
\<close>

definition validatorFixture :: puzzle where
  "validatorFixture = mkPuzzle 3
     [mkCage 1 [cellAt 0 0] 1 NoOp,
      mkCage 2 [cellAt 0 1, cellAt 0 2] 5 Add,
      mkCage 3 [cellAt 1 0, cellAt 2 0] 1 Sub,
      mkCage 4 [cellAt 1 1, cellAt 2 1] 3 Mul,
      mkCage 5 [cellAt 1 2, cellAt 2 2] 2 Div]
     [[1, 2, 3], [2, 3, 1], [3, 1, 2]]"

definition fixtureStore :: store where
  "fixtureStore = [[Some 0, Some 0, Some 0], [Some 0, Some 0, Some 0], [Some 3, Some 0, Some 0]]"

definition fixtureGrid :: gridRef where
  "fixtureGrid = [0, 1, 2]"

section \<open>Properties of the random source\<close>

lemma next_u32_bound: "fst (next_u32 r) < 2 ^ 32"
proof -
  have "unat (w :: 32 word) < 2 ^ 32" for w
    using unsigned_less [of w, where ?'a = nat] by simp
  then show ?thesis by (simp add: next_u32_def Let_def)
qed

lemma nextInt_range:
  assumes "lo \<le> hi"
  shows "lo \<le> fst (nextInt lo hi r) \<and> fst (nextInt lo hi r) \<le> hi"
proof -
  obtain u r' where ur: "next_u32 r = (u, r')" by (cases "next_u32 r")
  have ub: "int u < 4294967296" using next_u32_bound [of r] ur by simp
  define k where "k = hi - lo + 1"
  define p where "p = int u * k"
  define q where "q = p div 4294967296"
  have kpos: "0 < k" using assms by (simp add: k_def)
  have p0: "0 \<le> p" using kpos by (simp add: p_def)
  have pk: "p < 4294967296 * k" unfolding p_def using ub kpos by (rule mult_strict_right_mono)
  have "q * 4294967296 + p mod 4294967296 = p" by (simp add: q_def)
  moreover have "0 \<le> p mod 4294967296" by simp
  ultimately have qp: "q * 4294967296 \<le> p" by linarith
  have q0: "0 \<le> q" using p0 by (simp add: q_def pos_imp_zdiv_nonneg_iff)
  have "q < k" using qp pk by linarith
  then show ?thesis using q0 ur by (simp add: nextInt_def k_def p_def q_def)
qed

lemma nextInt_nat_range:
  "nat (fst (nextInt 0 (int k) r)) \<le> k"
  using nextInt_range [of 0 "int k" r] by linarith

subsection \<open>The Latin-square invariant through the generator\<close>

lemma shift_mod_image:
  "(\<lambda>c. (r + c) mod n) ` {0..<n} = {0..<(n::nat)}"
proof (rule card_subset_eq)
  show "finite {0..<n}" by simp
  show "(\<lambda>c. (r + c) mod n) ` {0..<n} \<subseteq> {0..<n}" by auto
  have "inj_on (\<lambda>c. (r + c) mod n) {0..<n}"
  proof (rule inj_onI)
    fix x y assume xy: "x \<in> {0..<n}" "y \<in> {0..<n}" "(r + x) mod n = (r + y) mod n"
    have aux: "a = b" if "a \<le> b" "b < n" "(r + a) mod n = (r + b) mod n" for a b
    proof -
      have "r + a \<le> r + b" using that by simp
      then have "n dvd (r + b) - (r + a)"
        using that(3) mod_eq_dvd_iff_nat [of "r + a" "r + b" n] by simp
      then have "n dvd b - a" by simp
      moreover have "b - a < n" using that by simp
      ultimately have "b - a = 0" by (meson dvd_imp_le not_less zero_less_iff_neq_zero)
      then show ?thesis using that by simp
    qed
    show "x = y"
    proof (cases "x \<le> y")
      case True then show ?thesis using aux [of x y] xy by simp
    next
      case False then show ?thesis using aux [of y x] xy by simp
    qed
  qed
  then show "card ((\<lambda>c. (r + c) mod n) ` {0..<n}) = card {0..<n}" by (rule card_image)
qed

lemma succ_image: "(\<lambda>x. int x + 1) ` {0..<n} = {1 .. int n}"
proof
  show "(\<lambda>x. int x + 1) ` {0..<n} \<subseteq> {1 .. int n}" by auto
  show "{1 .. int n} \<subseteq> (\<lambda>x. int x + 1) ` {0..<n}"
  proof
    fix y assume "y \<in> {1 .. int n}"
    then have "nat (y - 1) \<in> {0..<n}" "y = int (nat (y - 1)) + 1" by auto
    then show "y \<in> (\<lambda>x. int x + 1) ` {0..<n}" by (rule_tac image_eqI)
  qed
qed

lemma pattern_set: "set (map (\<lambda>c. int ((r + c) mod n) + 1) [0..<n]) = {1 .. int n}"
proof -
  have "set (map (\<lambda>c. int ((r + c) mod n) + 1) [0..<n])
        = (\<lambda>x. int x + 1) ` ((\<lambda>c. (r + c) mod n) ` {0..<n})"
    by (simp add: image_image)
  then show ?thesis by (simp only: shift_mod_image succ_image)
qed

lemma latin_basePattern: "latin n (basePattern n)"
proof -
  have col: "column (basePattern n) c = map (\<lambda>r. int ((c + r) mod n) + 1) [0..<n]" if "c < n" for c
    using that by (simp add: column_def basePattern_def add.commute)
  show ?thesis
    unfolding latin_def
  proof (intro conjI allI impI)
    show "length (basePattern n) = n" by (simp add: basePattern_def)
  next
    fix r assume "r < n"
    then show "length (basePattern n ! r) = n" by (simp add: basePattern_def)
  next
    fix r assume "r < n"
    then show "set (basePattern n ! r) = {1 .. int n}"
      using pattern_set [of r n] by (simp add: basePattern_def)
  next
    fix c assume "c < n"
    then show "set (column (basePattern n) c) = {1 .. int n}"
      using pattern_set [of c n] by (simp add: col)
  qed
qed

lemma set_swapAt: "i < length xs \<Longrightarrow> j < length xs \<Longrightarrow> set (swapAt xs i j) = set xs"
  by (simp add: swapAt_def)

lemma length_swapAt: "length (swapAt xs i j) = length xs"
  by (simp add: swapAt_def)

lemma nth_swapAt:
  "i < length xs \<Longrightarrow> j < length xs \<Longrightarrow>
   swapAt xs i j ! c = (if c = j then xs ! i else if c = i then xs ! j else xs ! c)"
  by (simp add: swapAt_def nth_list_update)

lemma latin_swap_rows:
  assumes "latin n g" "i < n" "j < n"
  shows "latin n (swapAt g i j)"
proof -
  have len: "length g = n" using assms by (simp add: latin_def)
  have col: "column (swapAt g i j) c = swapAt (column g c) i j" for c
    using assms len by (simp add: column_def swapAt_def map_update)
  have lc: "length (column g c) = n" for c by (simp add: column_def len)
  show ?thesis
    unfolding latin_def
  proof (intro conjI allI impI)
    show "length (swapAt g i j) = n" by (simp add: length_swapAt len)
  next
    fix r assume "r < n"
    then show "length (swapAt g i j ! r) = n" "set (swapAt g i j ! r) = {1 .. int n}"
      using assms len by (auto simp: nth_swapAt latin_def)
  next
    fix c assume "c < n"
    then show "set (column (swapAt g i j) c) = {1 .. int n}"
      using assms lc by (simp add: col set_swapAt latin_def)
  qed
qed

lemma latin_rows: "latin n g \<Longrightarrow> rw \<in> set g \<Longrightarrow> length rw = n \<and> set rw = {1 .. int n}"
  by (auto simp: latin_def in_set_conv_nth)

lemma latin_swap_cols:
  assumes "latin n g" "i < n" "j < n"
  shows "latin n (map (\<lambda>rw. swapAt rw i j) g)"
proof -
  have len: "length g = n" using assms by (simp add: latin_def)
  have col: "column (map (\<lambda>rw. swapAt rw i j) g) c
             = column g (if c = j then i else if c = i then j else c)" for c
    using assms latin_rows [OF assms(1)] by (auto simp: column_def nth_swapAt)
  show ?thesis
    unfolding latin_def
  proof (intro conjI allI impI)
    show "length (map (\<lambda>rw. swapAt rw i j) g) = n" by (simp add: len)
  next
    fix r assume "r < n"
    then show "length (map (\<lambda>rw. swapAt rw i j) g ! r) = n"
      "set (map (\<lambda>rw. swapAt rw i j) g ! r) = {1 .. int n}"
      using assms len by (auto simp: length_swapAt set_swapAt latin_def)
  next
    fix c assume "c < n"
    then show "set (column (map (\<lambda>rw. swapAt rw i j) g) c) = {1 .. int n}"
      using assms by (auto simp: col latin_def)
  qed
qed

lemma relabel_image:
  assumes "a \<in> S" "b \<in> S" shows "relabel a b ` S = S"
proof
  show "relabel a b ` S \<subseteq> S" using assms by (auto simp: relabel_def)
  show "S \<subseteq> relabel a b ` S"
  proof
    fix x assume "x \<in> S"
    then have "relabel a b x \<in> S" "x = relabel a b (relabel a b x)"
      using assms by (auto simp: relabel_def)
    then show "x \<in> relabel a b ` S" by (rule_tac image_eqI)
  qed
qed

lemma latin_relabel:
  assumes "latin n g" "a \<in> {1 .. int n}" "b \<in> {1 .. int n}"
  shows "latin n (map (map (relabel a b)) g)"
proof -
  have len: "length g = n" using assms by (simp add: latin_def)
  have col: "column (map (map (relabel a b)) g) c = map (relabel a b) (column g c)" if "c < n" for c
    using that latin_rows [OF assms(1)] by (simp add: column_def)
  show ?thesis
    unfolding latin_def
  proof (intro conjI allI impI)
    show "length (map (map (relabel a b)) g) = n" by (simp add: len)
  next
    fix r assume "r < n"
    then show "length (map (map (relabel a b)) g ! r) = n"
      "set (map (map (relabel a b)) g ! r) = {1 .. int n}"
      using assms len relabel_image [OF assms(2,3)] by (auto simp: latin_def)
  next
    fix c assume "c < n"
    then show "set (column (map (map (relabel a b)) g) c) = {1 .. int n}"
      using assms relabel_image [OF assms(2,3)] by (simp add: col latin_def)
  qed
qed

lemma latin_shuffleRows:
  "latin n g \<Longrightarrow> k < n \<Longrightarrow> latin n (fst (shuffleRows k g r))"
proof (induction k arbitrary: g r)
  case 0
  then show ?case by simp
next
  case (Suc k)
  obtain j r' where jr: "nextInt 0 (int (Suc k)) r = (j, r')" by (cases "nextInt 0 (int (Suc k)) r")
  have "nat j \<le> Suc k" using nextInt_nat_range [of "Suc k" r] jr by simp
  then have "latin n (swapAt g (Suc k) (nat j))"
    using Suc.prems by (intro latin_swap_rows) auto
  then show ?case using Suc.IH Suc.prems jr by simp
qed

lemma latin_shuffleCols:
  "latin n g \<Longrightarrow> k < n \<Longrightarrow> latin n (fst (shuffleCols k g r))"
proof (induction k arbitrary: g r)
  case 0
  then show ?case by simp
next
  case (Suc k)
  obtain j r' where jr: "nextInt 0 (int (Suc k)) r = (j, r')" by (cases "nextInt 0 (int (Suc k)) r")
  have "nat j \<le> Suc k" using nextInt_nat_range [of "Suc k" r] jr by simp
  then have "latin n (map (\<lambda>rw. swapAt rw (Suc k) (nat j)) g)"
    using Suc.prems by (intro latin_swap_cols) auto
  then show ?case using Suc.IH Suc.prems jr by simp
qed

lemma latin_remapNumbers:
  "latin n g \<Longrightarrow> 0 < n \<Longrightarrow> latin n (fst (remapNumbers k n g r))"
proof (induction k arbitrary: g r)
  case 0
  then show ?case by simp
next
  case (Suc k)
  obtain a r1 where a: "nextInt 1 (int n) r = (a, r1)" by (cases "nextInt 1 (int n) r")
  obtain b r2 where b: "nextInt 1 (int n) r1 = (b, r2)" by (cases "nextInt 1 (int n) r1")
  have "a \<in> {1 .. int n}" "b \<in> {1 .. int n}"
    using nextInt_range [of 1 "int n" r] nextInt_range [of 1 "int n" r1] a b Suc.prems by auto
  then have "latin n (if a \<noteq> b then map (map (relabel a b)) g else g)"
    using Suc.prems by (simp add: latin_relabel)
  then show ?case using Suc.IH Suc.prems a b by simp
qed

lemma latin_generateLatinSquare:
  assumes "0 < n" shows "latin n (fst (generateLatinSquare n r))"
proof -
  obtain sq1 r1 where s1: "shuffleRows (n - 1) (basePattern n) r = (sq1, r1)"
    by (cases "shuffleRows (n - 1) (basePattern n) r")
  obtain sq2 r2 where s2: "shuffleCols (n - 1) sq1 r1 = (sq2, r2)"
    by (cases "shuffleCols (n - 1) sq1 r1")
  obtain m r3 where s3: "nextInt 5 15 r2 = (m, r3)" by (cases "nextInt 5 15 r2")
  have "latin n sq1" using latin_shuffleRows [OF latin_basePattern, of "n - 1" n r] s1 assms by simp
  then have "latin n sq2" using latin_shuffleCols [of n sq1 "n - 1" r1] s2 assms by simp
  then have "latin n (fst (remapNumbers (nat m) n sq2 r3))" using assms by (rule latin_remapNumbers)
  then show ?thesis using s1 s2 s3 by (simp add: generateLatinSquare_def)
qed

lemma latin_isValidLatinSquare:
  assumes "latin n g"
  shows "isValidLatinSquare g"
proof -
  have len: "length g = n" using assms by (simp add: latin_def)
  have rows: "length rw = n \<and> set rw = {1 .. int n}" if "rw \<in> set g" for rw
    using latin_rows [OF assms that] .
  have r: "length (remdups rw) = n \<and> list_all (\<lambda>x. 1 \<le> x \<and> x \<le> int n) (remdups rw)"
    if "rw \<in> set g" for rw
    using rows [OF that] by (simp add: list_all_iff length_remdups_card_conv)
  have c: "length (remdups (map (\<lambda>rw. if c < length rw then Some (rw ! c) else None) g)) = n \<and>
           list_all (\<lambda>x. case x of None \<Rightarrow> False | Some y \<Rightarrow> 1 \<le> y \<and> y \<le> int n)
             (remdups (map (\<lambda>rw. if c < length rw then Some (rw ! c) else None) g))"
    if "c < n" for c
  proof -
    have "map (\<lambda>rw. if c < length rw then Some (rw ! c) else None) g = map Some (column g c)"
      using rows that by (simp add: column_def)
    moreover have "set (column g c) = {1 .. int n}" using assms that by (simp add: latin_def)
    ultimately have s: "set (map (\<lambda>rw. if c < length rw then Some (rw ! c) else None) g)
        = Some ` {1 .. int n}" by simp
    have "card (Some ` {1 .. int n}) = n" by (simp add: card_image)
    then show ?thesis
      unfolding length_remdups_card_conv list_all_iff set_remdups s by auto
  qed
  show ?thesis
    unfolding isValidLatinSquare_def Let_def len
    using r c by (simp add: list_all_iff)
qed

lemma isValidLatinSquare_examples:
  "isValidLatinSquare [[1, 2, 3], [2, 3, 1], [3, 1, 2]] = True"
  "isValidLatinSquare [[1, 1, 3], [2, 3, 1], [3, 2, 2]] = False"
  "isValidLatinSquare [[1, 2, 3], [1, 3, 2], [2, 1, 3]] = False"
  "isValidLatinSquare [[1, 2, 3], [2, 3, 1], [3, 1, 4]] = False"
  by (simp_all add: isValidLatinSquare_def)

text \<open>
  Claim C2.  For every size \<open>N \<ge> 2\<close> and every seed, numeric or string, the
  grid returned by \<open>generateLatinSquare\<close> has \<open>N\<close> rows of length \<open>N\<close>,
  every row and every column, as a set, equals \<open>{1..N}\<close>, and the repository's own
  checker \<open>isValidLatinSquare\<close> accepts it.
\<close>

theorem generateLatinSquare_latin:
  "2 \<le> n \<Longrightarrow>
     latin n (fst (generateLatinSquare n (createRNG s))) \<and>
     isValidLatinSquare (fst (generateLatinSquare n (createRNG s)))"
  using latin_generateLatinSquare [of n "createRNG s"]
    latin_isValidLatinSquare [of n "fst (generateLatinSquare n (createRNG s))"]
  by auto

theorem generateLatinSquare_latin_witness:
  "(2::nat) \<le> 4 \<and>
     latin 4 (fst (generateLatinSquare 4 (createRNG (SeedNumber 2026)))) \<and>
     isValidLatinSquare (fst (generateLatinSquare 4 (createRNG (SeedNumber 2026))))"
  using generateLatinSquare_latin [of 4 "SeedNumber 2026"] by simp
section \<open>The cage partitioner\<close>

subsection \<open>Unvisited neighbours\<close>

lemma tryNeighbor_accOK:
  "accOK n visited cageSet st \<Longrightarrow> accOK n visited cageSet (tryNeighbor n visited cageSet c d st)"
  by (auto simp: accOK_def tryNeighbor_def Let_def inGrid_def)

lemma tryNeighbor_mono:
  "set (fst st) \<subseteq> set (fst (tryNeighbor n visited cageSet c d st))"
  by (auto simp: tryNeighbor_def Let_def)

lemma tryNeighbor_new:
  "k \<in> set (fst (tryNeighbor n visited cageSet c d st)) \<Longrightarrow> k \<notin> set (fst st) \<Longrightarrow>
   int (row k) = int (row c) + fst d \<and> int (col k) = int (col c) + snd d"
  by (auto simp: tryNeighbor_def Let_def split: if_splits)

lemma tryNeighbor_finds:
  assumes "snd st = set (fst st)" "inGrid n k" "k \<notin> visited" "k \<notin> cageSet"
    and r: "int (row k) = int (row c) + fst d" and cl: "int (col k) = int (col c) + snd d"
  shows "k \<in> set (fst (tryNeighbor n visited cageSet c d st))"
proof -
  have key: "\<lparr>row = nat (int (row c) + fst d), col = nat (int (col c) + snd d)\<rparr> = k"
    by (simp add: r [symmetric] cl [symmetric])
  have b: "0 \<le> int (row c) + fst d" "int (row c) + fst d < int n"
     "0 \<le> int (col c) + snd d" "int (col c) + snd d < int n"
    using assms(2) by (simp_all add: r [symmetric] cl [symmetric] inGrid_def)
  show ?thesis
    using assms(1,3,4) b by (simp add: tryNeighbor_def Let_def key)
qed

lemma adjacent_iff_direction:
  "adjacent c k \<longleftrightarrow>
   (\<exists>d \<in> set directions. int (row k) = int (row c) + fst d \<and> int (col k) = int (col c) + snd d)"
  unfolding adjacent_def directions_def by simp linarith

lemma adjacent_sym: "adjacent a b \<Longrightarrow> adjacent b a"
  by (auto simp: adjacent_def)

lemma dirs_accOK:
  "accOK n visited cageSet st \<Longrightarrow>
   accOK n visited cageSet (fold (tryNeighbor n visited cageSet c) ds st)"
  by (induction ds arbitrary: st) (simp_all add: tryNeighbor_accOK)

lemma dirs_mono:
  "set (fst st) \<subseteq> set (fst (fold (tryNeighbor n visited cageSet c) ds st))"
proof (induction ds arbitrary: st)
  case Nil
  then show ?case by simp
next
  case (Cons d ds)
  show ?case
    using tryNeighbor_mono [of st n visited cageSet c d]
      Cons.IH [of "tryNeighbor n visited cageSet c d st"] by simp
qed

lemma dirs_new:
  "k \<in> set (fst (fold (tryNeighbor n visited cageSet c) ds st)) \<Longrightarrow> k \<notin> set (fst st) \<Longrightarrow>
   \<exists>d \<in> set ds. int (row k) = int (row c) + fst d \<and> int (col k) = int (col c) + snd d"
proof (induction ds arbitrary: st)
  case Nil
  then show ?case by simp
next
  case (Cons d ds)
  show ?case
  proof (cases "k \<in> set (fst (tryNeighbor n visited cageSet c d st))")
    case True
    then show ?thesis using tryNeighbor_new [OF True Cons.prems(2)] by simp
  next
    case False
    then show ?thesis using Cons.IH [OF _ False] Cons.prems(1) by simp
  qed
qed

lemma dirs_finds:
  assumes "accOK n visited cageSet st" "inGrid n k" "k \<notin> visited" "k \<notin> cageSet" "d \<in> set ds"
    "int (row k) = int (row c) + fst d" "int (col k) = int (col c) + snd d"
  shows "k \<in> set (fst (fold (tryNeighbor n visited cageSet c) ds st))"
  using assms
proof (induction ds arbitrary: st)
  case Nil
  then show ?case by simp
next
  case (Cons e ds)
  have ok: "accOK n visited cageSet (tryNeighbor n visited cageSet c e st)"
    using Cons.prems(1) by (rule tryNeighbor_accOK)
  show ?case
  proof (cases "d = e")
    case True
    have "k \<in> set (fst (tryNeighbor n visited cageSet c e st))"
      using Cons.prems True by (intro tryNeighbor_finds) (simp_all add: accOK_def)
    then show ?thesis
      using dirs_mono [of "tryNeighbor n visited cageSet c e st" n visited cageSet c ds] by auto
  next
    case False
    then have "d \<in> set ds" using Cons.prems(5) by simp
    then show ?thesis using Cons.IH [OF ok] Cons.prems by simp
  qed
qed

lemma cells_accOK:
  "accOK n visited cageSet st \<Longrightarrow>
   accOK n visited cageSet
     (fold (\<lambda>c st. fold (tryNeighbor n visited cageSet c) directions st) cs st)"
  by (induction cs arbitrary: st) (simp_all add: dirs_accOK)

lemma cells_mono:
  "set (fst st) \<subseteq>
   set (fst (fold (\<lambda>c st. fold (tryNeighbor n visited cageSet c) directions st) cs st))"
proof (induction cs arbitrary: st)
  case Nil
  then show ?case by simp
next
  case (Cons c cs)
  show ?case
    using dirs_mono [of st n visited cageSet c directions]
      Cons.IH [of "fold (tryNeighbor n visited cageSet c) directions st"] by simp
qed

lemma cells_new:
  "k \<in> set (fst (fold (\<lambda>c st. fold (tryNeighbor n visited cageSet c) directions st) cs st)) \<Longrightarrow>
   k \<notin> set (fst st) \<Longrightarrow> \<exists>c \<in> set cs. adjacent c k"
proof (induction cs arbitrary: st)
  case Nil
  then show ?case by simp
next
  case (Cons c cs)
  show ?case
  proof (cases "k \<in> set (fst (fold (tryNeighbor n visited cageSet c) directions st))")
    case True
    then have "adjacent c k"
      using dirs_new [OF True Cons.prems(2)] by (simp add: adjacent_iff_direction)
    then show ?thesis by simp
  next
    case False
    then show ?thesis using Cons.IH [OF _ False] Cons.prems(1) by simp
  qed
qed

lemma cells_finds:
  assumes "accOK n visited cageSet st" "inGrid n k" "k \<notin> visited" "k \<notin> cageSet" "c \<in> set cs"
    "adjacent c k"
  shows "k \<in> set (fst (fold (\<lambda>c st. fold (tryNeighbor n visited cageSet c) directions st) cs st))"
  using assms
proof (induction cs arbitrary: st)
  case Nil
  then show ?case by simp
next
  case (Cons e cs)
  let ?st = "fold (tryNeighbor n visited cageSet e) directions st"
  have ok: "accOK n visited cageSet ?st" using Cons.prems(1) by (rule dirs_accOK)
  show ?case
  proof (cases "c = e")
    case True
    obtain d where d: "d \<in> set directions" "int (row k) = int (row c) + fst d"
      "int (col k) = int (col c) + snd d"
      using Cons.prems(6) by (auto simp: adjacent_iff_direction)
    have "k \<in> set (fst ?st)"
      using Cons.prems(1-4) d True by (intro dirs_finds) simp_all
    then show ?thesis
      using cells_mono [of ?st n visited cageSet cs] by auto
  next
    case False
    then have "c \<in> set cs" using Cons.prems(5) by simp
    then show ?thesis using Cons.IH [OF ok] Cons.prems by simp
  qed
qed

lemma accOK_empty: "accOK n visited cageSet ([], {})"
  by (simp add: accOK_def)

lemma getUnvisitedNeighbors_iff:
  "k \<in> set (getUnvisitedNeighbors cs n visited cageSet) \<longleftrightarrow>
     inGrid n k \<and> k \<notin> visited \<and> k \<notin> cageSet \<and> (\<exists>c \<in> set cs. adjacent c k)"
proof
  assume k: "k \<in> set (getUnvisitedNeighbors cs n visited cageSet)"
  have "accOK n visited cageSet
          (fold (\<lambda>c st. fold (tryNeighbor n visited cageSet c) directions st) cs ([], {}))"
    using accOK_empty by (rule cells_accOK)
  moreover have "\<exists>c \<in> set cs. adjacent c k"
    using k cells_new [of k n visited cageSet cs "([], {})"]
    by (simp add: getUnvisitedNeighbors_def)
  ultimately show "inGrid n k \<and> k \<notin> visited \<and> k \<notin> cageSet \<and> (\<exists>c \<in> set cs. adjacent c k)"
    using k by (simp add: accOK_def getUnvisitedNeighbors_def)
next
  assume "inGrid n k \<and> k \<notin> visited \<and> k \<notin> cageSet \<and> (\<exists>c \<in> set cs. adjacent c k)"
  then show "k \<in> set (getUnvisitedNeighbors cs n visited cageSet)"
    using cells_finds [OF accOK_empty, of n k visited cageSet _ cs]
    by (auto simp: getUnvisitedNeighbors_def)
qed

subsection \<open>Connected regions\<close>

lemma connected4_single: "connected4 {c}"
  by (simp add: connected4_def)

lemma connected4_insert:
  assumes "connected4 S" "c \<in> S" "adjacent c k"
  shows "connected4 (insert k S)"
proof -
  let ?R = "\<lambda>T. {(x, y). x \<in> T \<and> y \<in> T \<and> adjacent x y}"
  have mono: "(?R S)\<^sup>* \<subseteq> (?R (insert k S))\<^sup>*"
    by (rule rtrancl_mono) auto
  have ck: "(c, k) \<in> ?R (insert k S)" "(k, c) \<in> ?R (insert k S)"
    using assms(2,3) adjacent_sym [OF assms(3)] by auto
  have old: "(a, b) \<in> (?R (insert k S))\<^sup>*" if "a \<in> S" "b \<in> S" for a b
    using that assms(1) mono by (auto simp: connected4_def)
  have to_k: "(a, k) \<in> (?R (insert k S))\<^sup>*" if "a \<in> S" for a
    using old [OF that assms(2)] ck(1) by (rule rtrancl_into_rtrancl)
  have from_k: "(k, b) \<in> (?R (insert k S))\<^sup>*" if "b \<in> S" for b
    using ck(2) old [OF assms(2) that] by (rule converse_rtrancl_into_rtrancl)
  show ?thesis
    unfolding connected4_def
  proof (intro ballI)
    fix a b assume "a \<in> insert k S" "b \<in> insert k S"
    then show "(a, b) \<in> (?R (insert k S))\<^sup>*"
      using old to_k from_k by (cases "a = k"; cases "b = k") auto
  qed
qed

subsection \<open>Growing one cage\<close>

lemma pick_nonempty:
  assumes "xs \<noteq> []"
  shows "\<exists>x \<in> set xs. fst (pick xs r) = Some x"
proof -
  obtain i r' where ir: "nextInt 0 (int (length xs) - 1) r = (i, r')"
    by (cases "nextInt 0 (int (length xs) - 1) r")
  have "0 \<le> int (length xs) - 1" using assms by (cases xs) simp_all
  then have "0 \<le> i \<and> i \<le> int (length xs) - 1"
    using nextInt_range [of 0 "int (length xs) - 1" r] ir by simp
  then have "0 \<le> i \<and> nat i < length xs" by linarith
  then show ?thesis using ir by (auto simp: pick_def)
qed

lemma regionOK_grow:
  assumes "regionOK n visited cs" "k \<in> set (getUnvisitedNeighbors cs n visited (set cs))"
  shows "regionOK n visited (cs @ [k])"
proof -
  from assms(2) obtain c where k: "inGrid n k" "k \<notin> visited" "k \<notin> set cs" "c \<in> set cs" "adjacent c k"
    by (auto simp: getUnvisitedNeighbors_iff)
  have "connected4 (insert k (set cs))"
    using assms(1) k(4,5) by (intro connected4_insert [of _ c]) (simp_all add: regionOK_def)
  then show ?thesis using assms(1) k by (simp add: regionOK_def)
qed

lemma growLoop_ok:
  assumes "regionOK n visited cs" "cageCells = set cs"
  shows "\<exists>cs' rng'. growLoop n visited t cs cageCells rng = Inr (cs', rng') \<and>
           regionOK n visited cs' \<and> hd cs' = hd cs \<and>
           int (length cs') \<le> max t (int (length cs)) \<and>
           (int (length cs') < t \<longrightarrow> getUnvisitedNeighbors cs' n visited (set cs') = [])"
  using assms
proof (induction n visited t cs cageCells rng rule: growLoop.induct)
  case (1 n visited t cs cageCells rng)
  show ?case
  proof (cases "int (length cs) < t")
    case False
    then show ?thesis using "1.prems" by (subst growLoop.simps) simp
  next
    case small: True
    let ?ns = "getUnvisitedNeighbors cs n visited cageCells"
    show ?thesis
    proof (cases "?ns = []")
      case True
      then show ?thesis using "1.prems" small by (subst growLoop.simps) simp
    next
      case False
      obtain x where x: "x \<in> set ?ns" "fst (pick ?ns rng) = Some x"
        using pick_nonempty [OF False, of rng] by blast
      obtain rng' where p: "pick ?ns rng = (Some x, rng')"
        using x(2) by (cases "pick ?ns rng") simp
      have ok: "regionOK n visited (cs @ [x])"
        using "1.prems" x(1) by (intro regionOK_grow) simp_all
      have cc: "insert x cageCells = set (cs @ [x])" using "1.prems"(2) by simp
      have ne: "cs \<noteq> []" using "1.prems"(1) by (simp add: regionOK_def)
      from "1.IH" [OF small refl False p [symmetric] refl ok cc]
      obtain cs' r' where r:
        "growLoop n visited t (cs @ [x]) (insert x cageCells) rng' = Inr (cs', r')"
        "regionOK n visited cs'" "hd cs' = hd (cs @ [x])"
        "int (length cs') \<le> max t (int (length (cs @ [x])))"
        "int (length cs') < t \<longrightarrow> getUnvisitedNeighbors cs' n visited (set cs') = []"
        by blast
      have "growLoop n visited t cs cageCells rng = Inr (cs', r')"
        using small False p r(1) by (subst growLoop.simps) simp
      moreover have "hd cs' = hd cs" using r(3) ne by simp
      moreover have "int (length cs') \<le> max t (int (length cs))" using r(4) small by simp
      ultimately show ?thesis using r(2,5) by blast
    qed
  qed
qed

lemma regionOK_start:
  "inGrid n c \<Longrightarrow> c \<notin> visited \<Longrightarrow> regionOK n visited [c]"
  by (simp add: regionOK_def connected4_single)

lemma growCage_ok:
  assumes "inGrid n \<lparr>row = r, col = c\<rparr>" "\<lparr>row = r, col = c\<rparr> \<notin> visited" "1 \<le> mn" "mn \<le> mx"
  shows "\<exists>cs' rng'. growCage r c n visited rng mn mx = Inr (cs', rng') \<and>
           regionOK n visited cs' \<and> \<lparr>row = r, col = c\<rparr> \<in> set cs' \<and>
           int (length cs') \<le> mx \<and>
           (int (length cs') < mn \<longrightarrow> getUnvisitedNeighbors cs' n visited (set cs') = [])"
proof -
  let ?s = "\<lparr>row = r, col = c\<rparr>"
  obtain t rng1 where t: "nextInt mn mx rng = (t, rng1)" by (cases "nextInt mn mx rng")
  have tr: "mn \<le> t" "t \<le> mx" using nextInt_range [OF assms(4), of rng] t by simp_all
  from growLoop_ok [OF regionOK_start [OF assms(1,2)], of "{?s}" t rng1]
  obtain cs' r' where g: "growLoop n visited t [?s] {?s} rng1 = Inr (cs', r')"
    "regionOK n visited cs'" "hd cs' = hd [?s]"
    "int (length cs') \<le> max t (int (length [?s]))"
    "int (length cs') < t \<longrightarrow> getUnvisitedNeighbors cs' n visited (set cs') = []"
    by auto
  have "growCage r c n visited rng mn mx = Inr (cs', r')"
    using t g(1) by (simp add: growCage_def)
  moreover have "?s \<in> set cs'" using g(2,3) by (cases cs') (simp_all add: regionOK_def)
  moreover have "int (length cs') \<le> mx" using g(4) tr assms(3) by simp
  moreover have "int (length cs') < mn \<longrightarrow> getUnvisitedNeighbors cs' n visited (set cs') = []"
    using g(5) tr by simp
  ultimately show ?thesis using g(2) by blast
qed

subsection \<open>The partition\<close>

lemma claimedUpTo_append:
  "i < length cgs \<Longrightarrow> claimedUpTo (cgs @ [cg]) i = claimedUpTo cgs i"
  by (simp add: claimedUpTo_def)

lemma claimedUpTo_last:
  "claimedUpTo (cgs @ [cg]) (length cgs) = cagesUnion cgs \<union> set (cells cg)"
  by (auto simp: claimedUpTo_def cagesUnion_def)

lemma trapped_append:
  "i < length cgs \<Longrightarrow> trapped n (cgs @ [cg]) i = trapped n cgs i"
  by (simp add: trapped_def claimedUpTo_append nth_append)

lemma trapped_last:
  assumes "getUnvisitedNeighbors (cells cg) n (cagesUnion cgs) (set (cells cg)) = []"
  shows "trapped n (cgs @ [cg]) (length cgs)"
  unfolding trapped_def claimedUpTo_last
proof (intro ballI allI impI)
  fix c k assume c: "c \<in> set (cells ((cgs @ [cg]) ! length cgs))" and k: "inGrid n k \<and> adjacent c k"
  have "k \<notin> set (getUnvisitedNeighbors (cells cg) n (cagesUnion cgs) (set (cells cg)))"
    using assms by simp
  then show "k \<in> cagesUnion cgs \<union> set (cells cg)"
    using c k by (auto simp: getUnvisitedNeighbors_iff)
qed

lemma partOK_snoc:
  assumes "partOK n mn mx cgs" "regionOK n (cagesUnion cgs) cs" "int (length cs) \<le> mx"
    "int (length cs) < mn \<longrightarrow> getUnvisitedNeighbors cs n (cagesUnion cgs) (set cs) = []"
  shows "partOK n mn mx (cgs @ [\<lparr>cage_id = i, cells = cs, clue = cl\<rparr>])"
proof -
  let ?cg = "\<lparr>cage_id = i, cells = cs, clue = cl\<rparr>"
  have u: "set (concat (map cells cgs)) = cagesUnion cgs" by (auto simp: cagesUnion_def)
  have d: "distinct (concat (map cells (cgs @ [?cg])))"
    using assms(1,2) u by (auto simp: partOK_def regionOK_def)
  have t: "int (length (cells ((cgs @ [?cg]) ! j))) < mn \<longrightarrow> trapped n (cgs @ [?cg]) j"
    if "j < length (cgs @ [?cg])" for j
  proof (cases "j < length cgs")
    case True
    then show ?thesis using assms(1) by (simp add: trapped_append nth_append partOK_def)
  next
    case False
    then have j: "j = length cgs" using that by simp
    show ?thesis using assms(4) trapped_last [of ?cg n cgs] by (simp add: j)
  qed
  show ?thesis
    unfolding partOK_def
  proof (intro conjI)
    show "distinct (concat (map cells (cgs @ [?cg])))" by (rule d)
    show "\<forall>cg\<in>set (cgs @ [?cg]). (\<forall>c\<in>set (cells cg). inGrid n c) \<and> connected4 (set (cells cg)) \<and>
        int (length (cells cg)) \<le> mx"
      using assms(1,2,3) by (auto simp: partOK_def regionOK_def)
    show "\<forall>j<length (cgs @ [?cg]). int (length (cells ((cgs @ [?cg]) ! j))) < mn \<longrightarrow> trapped n (cgs @ [?cg]) j"
      using t by blast
  qed
qed

lemma cagesUnion_snoc: "cagesUnion (cgs @ [cg]) = cagesUnion cgs \<union> set (cells cg)"
  by (auto simp: cagesUnion_def)

lemma cell_eta: "\<lparr>row = row p, col = col p\<rparr> = (p::cell)"
  by (cases p) simp

lemma cagesLoop_ok:
  assumes "partOK n mn mx cgs" "visited = cagesUnion cgs" "\<forall>p \<in> set ps. inGrid n p"
    "1 \<le> mn" "mn \<le> mx"
  shows "\<exists>cgs' cid' rng'. cagesLoop n mn mx ps (cgs, visited, cid, rng)
             = Inr (cgs', cagesUnion cgs', cid', rng') \<and>
           partOK n mn mx cgs' \<and> visited \<union> set ps \<subseteq> cagesUnion cgs'"
  using assms(1,2,3)
proof (induction ps arbitrary: cgs visited cid rng)
  case Nil
  then show ?case by simp
next
  case (Cons p ps)
  show ?case
  proof (cases "p \<in> visited")
    case True
    from Cons.IH [OF Cons.prems(1,2), of cid rng] Cons.prems(3)
    obtain cgs' cid' rng' where
      "cagesLoop n mn mx ps (cgs, visited, cid, rng) = Inr (cgs', cagesUnion cgs', cid', rng')"
      "partOK n mn mx cgs'" "visited \<union> set ps \<subseteq> cagesUnion cgs'"
      by auto
    then show ?thesis using True by auto
  next
    case False
    have pin: "inGrid n \<lparr>row = row p, col = col p\<rparr>" "\<lparr>row = row p, col = col p\<rparr> \<notin> visited"
      using Cons.prems(3) False by (simp_all add: cell_eta)
    from growCage_ok [OF pin assms(4,5), of rng]
    obtain cs r1 where g: "growCage (row p) (col p) n visited rng mn mx = Inr (cs, r1)"
      "regionOK n visited cs" "p \<in> set cs" "int (length cs) \<le> mx"
      "int (length cs) < mn \<longrightarrow> getUnvisitedNeighbors cs n visited (set cs) = []"
      by (auto simp: cell_eta)
    let ?cg = "\<lparr>cage_id = cid, cells = cs, clue = \<lparr>target = 0, operation = Add\<rparr>\<rparr>"
    have ok: "partOK n mn mx (cgs @ [?cg])"
      using Cons.prems(1,2) g(2,4,5) by (intro partOK_snoc) simp_all
    have v: "visited \<union> set cs = cagesUnion (cgs @ [?cg])"
      using Cons.prems(2) by (simp add: cagesUnion_snoc)
    from Cons.IH [OF ok v, of "cid + 1" r1] Cons.prems(3)
    obtain cgs' cid' rng' where r:
      "cagesLoop n mn mx ps (cgs @ [?cg], visited \<union> set cs, cid + 1, r1)
         = Inr (cgs', cagesUnion cgs', cid', rng')"
      "partOK n mn mx cgs'" "(visited \<union> set cs) \<union> set ps \<subseteq> cagesUnion cgs'"
      by auto
    have "cagesLoop n mn mx (p # ps) (cgs, visited, cid, rng) = Inr (cgs', cagesUnion cgs', cid', rng')"
      using False g(1) r(1) by simp
    moreover have "visited \<union> set (p # ps) \<subseteq> cagesUnion cgs'" using r(3) g(3) by auto
    ultimately show ?thesis using r(2) by blast
  qed
qed

lemma set_allPositions: "set (allPositions n) = {c. inGrid n c}"
proof
  show "set (allPositions n) \<subseteq> {c. inGrid n c}" by (auto simp: allPositions_def inGrid_def)
  show "{c. inGrid n c} \<subseteq> set (allPositions n)"
  proof
    fix c assume "c \<in> {c. inGrid n c}"
    then have "row c < n" "col c < n" "c = \<lparr>row = row c, col = col c\<rparr>"
      by (simp_all add: inGrid_def cell_eta)
    then show "c \<in> set (allPositions n)" unfolding allPositions_def
      by (metis (mono_tags, lifting) atLeast0LessThan imageI lessThan_iff set_concat set_map set_upt UN_I)
  qed
qed

lemma partOK_empty: "partOK n mn mx []"
  by (simp add: partOK_def)

lemma generateCages_ok:
  assumes "1 \<le> mn" "mn \<le> mx"
  shows "\<exists>cgs rng'.
     generateCages n rng \<lparr>minSize_opt = Some mn, maxSize_opt = Some mx, allowSingleCell_opt = a\<rparr>
       = Inr (cgs, rng') \<and> partOK n mn mx cgs \<and> cagesUnion cgs = {c. inGrid n c}"
proof -
  have e: "{} = cagesUnion []" by (simp add: cagesUnion_def)
  have "\<forall>p \<in> set (allPositions n). inGrid n p" by (simp add: set_allPositions)
  from cagesLoop_ok [OF partOK_empty e this assms, of 0 rng]
  obtain cgs cid' rng' where r:
    "cagesLoop n mn mx (allPositions n) ([], {}, 0, rng) = Inr (cgs, cagesUnion cgs, cid', rng')"
    "partOK n mn mx cgs" "set (allPositions n) \<subseteq> cagesUnion cgs"
    by auto
  have "cagesUnion cgs \<subseteq> {c. inGrid n c}" using r(2) by (auto simp: partOK_def cagesUnion_def)
  then have "cagesUnion cgs = {c. inGrid n c}" using r(3) by (simp add: set_allPositions)
  moreover have "generateCages n rng \<lparr>minSize_opt = Some mn, maxSize_opt = Some mx, allowSingleCell_opt = a\<rparr>
       = Inr (cgs, rng')"
    using r(1) by (simp add: generateCages_def mergeConfig_def)
  ultimately show ?thesis using r(2) by blast
qed

text \<open>
  Claim C3.  For every size \<open>N \<ge> 1\<close>, every seed and every pair of bounds with
  \<open>1 \<le> min \<le> max\<close>, \<open>generateCages\<close> returns a cage list (it does not throw)
  such that: the union of the cages' cells is the whole \<open>N x N\<close> grid; no cell
  occurs twice, neither in two cages nor twice in one; every cage is
  4-connected; every cage has at most \<open>max\<close> cells; and a cage has fewer than
  \<open>min\<close> cells only if it was trapped: every orthogonal neighbour inside the
  grid of each of its cells was already claimed, by it or by an earlier cage.
\<close>

theorem generateCages_partition:
  assumes "1 \<le> n" "1 \<le> mn" "mn \<le> mx"
  shows "\<exists>cgs rng'.
     generateCages n (createRNG sd)
        \<lparr>minSize_opt = Some mn, maxSize_opt = Some mx, allowSingleCell_opt = a\<rparr> = Inr (cgs, rng') \<and>
     (\<Union>cg \<in> set cgs. set (cells cg)) = {c. row c < n \<and> col c < n} \<and>
     distinct (concat (map cells cgs)) \<and>
     (\<forall>cg \<in> set cgs. connected4 (set (cells cg))) \<and>
     (\<forall>cg \<in> set cgs. int (length (cells cg)) \<le> mx) \<and>
     (\<forall>i < length cgs. int (length (cells (cgs ! i))) < mn \<longrightarrow> trapped n cgs i)"
proof -
  from generateCages_ok [OF assms(2,3), of n "createRNG sd" a]
  obtain cgs rng' where r: "generateCages n (createRNG sd)
        \<lparr>minSize_opt = Some mn, maxSize_opt = Some mx, allowSingleCell_opt = a\<rparr> = Inr (cgs, rng')"
    "partOK n mn mx cgs" "cagesUnion cgs = {c. inGrid n c}"
    by blast
  show ?thesis
    using r by (intro exI [of _ cgs] exI [of _ rng']) (simp add: partOK_def cagesUnion_def inGrid_def)
qed

theorem generateCages_partition_witness:
  "(1::nat) \<le> 4 \<and> (1::int) \<le> 2 \<and> (2::int) \<le> 3 \<and>
   (\<exists>cgs rng'.
     generateCages 4 (createRNG (SeedNumber 2))
        \<lparr>minSize_opt = Some 2, maxSize_opt = Some 3, allowSingleCell_opt = None\<rparr> = Inr (cgs, rng') \<and>
     (\<Union>cg \<in> set cgs. set (cells cg)) = {c. row c < 4 \<and> col c < 4} \<and>
     distinct (concat (map cells cgs)) \<and>
     (\<forall>cg \<in> set cgs. connected4 (set (cells cg))) \<and>
     (\<forall>cg \<in> set cgs. int (length (cells cg)) \<le> 3) \<and>
     (\<forall>i < length cgs. int (length (cells (cgs ! i))) < 2 \<longrightarrow> trapped 4 cgs i))"
  using generateCages_partition [of 4 2 3 "SeedNumber 2" None] by simp

text \<open>
  Claim C10.  For every size, generator state and bounds, \<open>generateCages\<close>
  returns the same cage list (and leaves the generator in the same state)
  whatever the \<open>allowSingleCell\<close> entry of its configuration is, absent, true
  or false: the flag is read from the configuration and never used.
\<close>

theorem generateCages_flag_irrelevant:
  "generateCages n rng (config\<lparr>allowSingleCell_opt := a\<rparr>)
   = generateCages n rng (config\<lparr>allowSingleCell_opt := b\<rparr>)"
  by (simp add: generateCages_def mergeConfig_def Let_def)

theorem generateCages_flag_irrelevant_witness:
  "generateCages 4 (createRNG (SeedNumber 2))
     \<lparr>minSize_opt = Some 1, maxSize_opt = Some 2, allowSingleCell_opt = Some True\<rparr>
   = generateCages 4 (createRNG (SeedNumber 2))
     \<lparr>minSize_opt = Some 1, maxSize_opt = Some 2, allowSingleCell_opt = Some False\<rparr>"
  using generateCages_flag_irrelevant
    [where n = 4 and rng = "createRNG (SeedNumber 2)"
       and config = "\<lparr>minSize_opt = Some 1, maxSize_opt = Some 2, allowSingleCell_opt = None\<rparr>"
       and a = "Some True" and b = "Some False"]
  by simp

section \<open>The assembled pipeline\<close>

lemma remapNumbers_empty: "fst (remapNumbers k n [] r) = []"
  by (induction k arbitrary: r) (simp_all split: prod.splits)

lemma latin_generateLatinSquare_all: "latin n (fst (generateLatinSquare n r))"
proof (cases "n = 0")
  case True
  have "fst (generateLatinSquare 0 r) = []"
    by (simp add: generateLatinSquare_def basePattern_def remapNumbers_empty split: prod.splits)
  then show ?thesis using True by (simp add: latin_def)
next
  case False
  then show ?thesis by (simp add: latin_generateLatinSquare)
qed

lemma readCells_inGrid:
  assumes "length g = n" "\<forall>r < n. length (g ! r) = n" "\<forall>c \<in> set cs. inGrid n c"
  shows "readCells g cs = Inr (map (\<lambda>c. Some (g ! row c ! col c)) cs)"
  using assms(3) by (induction cs) (simp_all add: readCell_def inGrid_def assms(1,2))

lemma calculateClue_total:
  assumes "length g = n" "\<forall>r < n. length (g ! r) = n" "\<forall>c \<in> set cs. inGrid n c"
  shows "\<exists>cl. calculateClue cs g ops = Inr cl"
  using readCells_inGrid [OF assms] by (auto simp: calculateClue_def Let_def)

lemma assignClues_total:
  assumes "length g = n" "\<forall>r < n. length (g ! r) = n"
    "\<forall>cg \<in> set cgs. \<forall>c \<in> set (cells cg). inGrid n c"
  shows "\<exists>cgs'. assignClues cgs g ops = Inr cgs' \<and> map cells cgs' = map cells cgs"
  using assms(3)
proof (induction cgs)
  case Nil
  then show ?case by simp
next
  case (Cons cg cgs)
  obtain cl where cl: "calculateClue (cells cg) g ops = Inr cl"
    using calculateClue_total [OF assms(1,2), of "cells cg" ops] Cons.prems by auto
  obtain cgs' where r: "assignClues cgs g ops = Inr cgs'" "map cells cgs' = map cells cgs"
    using Cons by auto
  show ?case using cl r by simp
qed

lemma preset_bounds:
  "1 \<le> minCageSize (getDifficultyPreset d) \<and>
   minCageSize (getDifficultyPreset d) \<le> maxCageSize (getDifficultyPreset d)"
  by (cases d) simp_all

lemma pipeline_cells:
  "\<exists>sol rng1 cgs rng2 cgs'.
     generateLatinSquare n rng = (sol, rng1) \<and>
     generateCages n rng1
        \<lparr>minSize_opt = Some (minCageSize (getDifficultyPreset d)),
         maxSize_opt = Some (maxCageSize (getDifficultyPreset d)),
         allowSingleCell_opt = Some (singleCellRate (getDifficultyPreset d) > 0)\<rparr> = Inr (cgs, rng2) \<and>
     assignClues cgs sol (operations (getDifficultyPreset d)) = Inr cgs' \<and>
     (\<forall>cg \<in> set cgs'. \<forall>c \<in> set (cells cg). inGrid n c)"
proof -
  obtain sol rng1 where s: "generateLatinSquare n rng = (sol, rng1)"
    by (cases "generateLatinSquare n rng")
  have lat: "latin n sol" using latin_generateLatinSquare_all [of n rng] s by simp
  from generateCages_ok [OF preset_bounds [of d, THEN conjunct1] preset_bounds [of d, THEN conjunct2],
      of n rng1 "Some (singleCellRate (getDifficultyPreset d) > 0)"]
  obtain cgs rng2 where g: "generateCages n rng1
                \<lparr>minSize_opt = Some (minCageSize (getDifficultyPreset d)),
                 maxSize_opt = Some (maxCageSize (getDifficultyPreset d)),
                 allowSingleCell_opt = Some (singleCellRate (getDifficultyPreset d) > 0)\<rparr> = Inr (cgs, rng2)"
    "partOK n (minCageSize (getDifficultyPreset d)) (maxCageSize (getDifficultyPreset d)) cgs"
    by blast
  have in1: "\<forall>cg \<in> set cgs. \<forall>c \<in> set (cells cg). inGrid n c" using g(2) by (simp add: partOK_def)
  moreover have "length sol = n" "\<forall>r < n. length (sol ! r) = n" using lat by (simp_all add: latin_def)
  ultimately obtain cgs' where a: "assignClues cgs sol (operations (getDifficultyPreset d)) = Inr cgs'"
    "map cells cgs' = map cells cgs"
    using assignClues_total [of sol n cgs] by blast
  have "set (map cells cgs') = set (map cells cgs)" using a(2) by simp
  then have "cells ` set cgs' = cells ` set cgs" by simp
  then have "\<forall>cg \<in> set cgs'. \<forall>c \<in> set (cells cg). inGrid n c"
    using in1 by (metis (no_types, lifting) image_iff)
  then show ?thesis using s g(1) a(1) by blast
qed

section \<open>Two-cell clues\<close>

lemma js_rem_zero_iff: "b \<noteq> 0 \<Longrightarrow> js_rem a b = 0 \<longleftrightarrow> b dvd a"
  by (auto simp: js_rem_def sgn_if dvd_eq_mod_eq_0 [symmetric] zmod_zminus1_eq_if
      split: if_splits)

lemma division_eligible:
  "(d \<noteq> 0 \<and> js_rem m d = 0) \<longleftrightarrow> evenly_divisible m d"
  using js_rem_zero_iff [of d m] by (auto simp: evenly_divisible_def)

lemma max_eq_min_iff: "max a b = min a b \<longleftrightarrow> a = (b::int)"
  by (auto simp: max_def min_def)

text \<open>
  Claim C5.  For a two-cell cage with values \<open>a\<close> and \<open>b\<close> and any list of
  allowed operations, \<open>calculateTwoCellClue\<close> returns the highest-priority
  eligible clue in the order division, multiplication, subtraction, addition:
  division (target \<open>max / min\<close>) when allowed and \<open>max\<close> is evenly divisible by
  \<open>min\<close>, multiplication (target \<open>a * b\<close>) when allowed, subtraction (target
  \<open>max - min\<close>) when allowed and \<open>a \<noteq> b\<close>, addition (target \<open>a + b\<close>) when
  allowed, and addition with target \<open>a + b\<close> when nothing is eligible.
\<close>

theorem calculateTwoCellClue_priority:
  "calculateTwoCellClue a b ops = spec_two_cell_clue a b ops"
  by (simp add: calculateTwoCellClue_def spec_two_cell_clue_def sortByPriority_def
      division_eligible max_eq_min_iff Let_def)

theorem calculateTwoCellClue_priority_witness:
  "calculateTwoCellClue 6 3 [Add, Sub, Mul, Div] = \<lparr>target = 2, operation = Div\<rparr>
   \<and> calculateTwoCellClue 3 5 [Add, Sub, Mul, Div] = \<lparr>target = 15, operation = Mul\<rparr>
   \<and> calculateTwoCellClue 3 5 [Add, Sub] = \<lparr>target = 2, operation = Sub\<rparr>
   \<and> calculateTwoCellClue 3 5 [Div] = \<lparr>target = 8, operation = Add\<rparr>"
  using calculateTwoCellClue_priority [of 6 3 "[Add, Sub, Mul, Div]"]
    calculateTwoCellClue_priority [of 3 5 "[Add, Sub, Mul, Div]"]
    calculateTwoCellClue_priority [of 3 5 "[Add, Sub]"]
    calculateTwoCellClue_priority [of 3 5 "[Div]"]
  by (simp add: spec_two_cell_clue_def evenly_divisible_def)

section \<open>Rounding to binary64\<close>

declare ilog2.simps [simp del]
declare pow2n.simps [simp del]

lemma ilog2_bounds:
  "1 \<le> n \<Longrightarrow> 0 \<le> ilog2 n \<and> 2 ^ nat (ilog2 n) \<le> n \<and> n < 2 * 2 ^ nat (ilog2 n)"
proof (induction n rule: ilog2.induct)
  case (1 n)
  show ?case
  proof (cases "n < 2")
    case True
    then have "n = 1" using "1.prems" by simp
    then show ?thesis by (simp add: ilog2.simps)
  next
    case False
    then have h: "1 \<le> n div 2" by simp
    note ih = "1.IH" [OF False h]
    have e: "ilog2 n = 1 + ilog2 (n div 2)" using False by (subst ilog2.simps) simp
    define P :: int where "P = 2 ^ nat (ilog2 (n div 2))"
    have n: "nat (ilog2 n) = Suc (nat (ilog2 (n div 2)))"
      using ih by (simp add: e nat_add_distrib)
    have "P \<le> n div 2" "n div 2 < 2 * P" using ih by (simp_all add: P_def)
    then have "2 * P \<le> n \<and> n < 2 * (2 * P)" by presburger
    then show ?thesis unfolding n using e ih by (simp add: P_def)
  qed
qed

lemma pow2n_eq: "pow2n k = 2 ^ nat k"
proof (induction k rule: pow2n.induct)
  case (1 k)
  show ?case
  proof (cases "k \<le> 0")
    case True
    then show ?thesis by (subst pow2n.simps) simp
  next
    case pos: False
    show ?thesis
    proof (cases "even k")
      case True
      obtain m where m: "k = 2 * m" using True by (elim evenE)
      have "nat k = nat (k div 2) + nat (k div 2)" using pos by (simp add: m)
      then have "(2::rat) ^ nat k = 2 ^ nat (k div 2) * 2 ^ nat (k div 2)"
        by (simp add: power_add [symmetric])
      then show ?thesis
        using "1.IH"(1) [OF pos True] pos True by (subst pow2n.simps) (simp add: Let_def)
    next
      case False
      have "nat k = Suc (nat (k - 1))" using pos by simp
      then have "(2::rat) ^ nat k = 2 * 2 ^ nat (k - 1)" by simp
      then show ?thesis
        using "1.IH"(2) [OF pos False] pos False by (subst pow2n.simps) simp
    qed
  qed
qed

lemma pow2_power_int: "pow2 k = power_int 2 k"
  by (simp add: pow2_def pow2n_eq power_int_def power_one_over inverse_eq_divide)

lemma pow2_pos: "0 < pow2 k"
  by (simp add: pow2_power_int)

lemma pow2_add: "pow2 (a + b) = pow2 a * pow2 b"
  by (simp add: pow2_power_int power_int_add)

lemma pow2_nat: "0 \<le> k \<Longrightarrow> pow2 k = 2 ^ nat k"
  by (simp add: pow2_def pow2n_eq)

lemma pow2_0: "pow2 0 = 1"
  by (simp add: pow2_nat)

lemma pow2_Suc: "pow2 (k + 1) = 2 * pow2 k"
  using pow2_add [of k 1] by (simp add: pow2_nat)

lemma pow2_le: "a \<le> b \<Longrightarrow> pow2 a \<le> pow2 b"
proof -
  assume "a \<le> b"
  then have "0 \<le> b - a" by simp
  then have "1 \<le> pow2 (b - a)" by (simp add: pow2_nat)
  then have "pow2 a * 1 \<le> pow2 a * pow2 (b - a)"
    using pow2_pos [of a] by (intro mult_left_mono) simp_all
  then show ?thesis using pow2_add [of a "b - a"] by simp
qed

lemma pow2_less: "a < b \<Longrightarrow> pow2 a < pow2 b"
proof -
  assume "a < b"
  then have "a + 1 \<le> b" by simp
  then have "pow2 (a + 1) \<le> pow2 b" by (rule pow2_le)
  then show ?thesis using pow2_Suc [of a] pow2_pos [of a] by simp
qed

lemma pow2_less_cancel: "pow2 a < pow2 b \<Longrightarrow> a < b"
  using pow2_le [of b a] by (cases "a < b") simp_all

lemma pow2_le_cancel: "pow2 a \<le> pow2 b \<Longrightarrow> a \<le> b"
  using pow2_less [of b a] by (cases "a \<le> b") simp_all

lemma floorLog2_bounds:
  assumes "0 < x"
  shows "pow2 (floorLog2 x) \<le> x \<and> x < pow2 (floorLog2 x + 1)"
proof -
  obtain a b where q: "quotient_of x = (a, b)" by (cases "quotient_of x")
  have b: "0 < b" using quotient_of_denom_pos [OF q] .
  have x: "x = of_int a / of_int b" using quotient_of_div [OF q] .
  have a: "0 < a" using assms b x by (simp add: zero_less_divide_iff)
  define la where "la = ilog2 a"
  define lb where "lb = ilog2 b"
  have A: "0 \<le> la" "2 ^ nat la \<le> a" "a < 2 * 2 ^ nat la"
    using ilog2_bounds [of a] a by (simp_all add: la_def)
  have B: "0 \<le> lb" "2 ^ nat lb \<le> b" "b < 2 * 2 ^ nat lb"
    using ilog2_bounds [of b] b by (simp_all add: lb_def)
  have pa: "pow2 la = of_int (2 ^ nat la)" using A(1) by (simp add: pow2_nat)
  have pb: "pow2 lb = of_int (2 ^ nat lb)" using B(1) by (simp add: pow2_nat)
  have a1: "pow2 la \<le> of_int a" unfolding pa using A(2) by (simp only: of_int_le_iff)
  have a2: "of_int a < pow2 (la + 1)"
  proof -
    have "(of_int a :: rat) < of_int (2 * 2 ^ nat la)" using A(3) by (simp only: of_int_less_iff)
    then show ?thesis using pa by (simp add: pow2_Suc)
  qed
  have b1: "pow2 lb \<le> of_int b" unfolding pb using B(2) by (simp only: of_int_le_iff)
  have b2: "of_int b < pow2 (lb + 1)"
  proof -
    have "(of_int b :: rat) < of_int (2 * 2 ^ nat lb)" using B(3) by (simp only: of_int_less_iff)
    then show ?thesis using pb by (simp add: pow2_Suc)
  qed
  have xb: "x * of_int b = of_int a" using x b by simp
  have up: "x < pow2 (la - lb + 1)"
  proof -
    have "x * pow2 lb \<le> x * of_int b" using b1 assms by (intro mult_left_mono) simp_all
    then have "x * pow2 lb < pow2 (la + 1)" using xb a2 by simp
    then have "x * pow2 lb * pow2 (- lb) < pow2 (la + 1) * pow2 (- lb)"
      using pow2_pos [of "- lb"] by (intro mult_strict_right_mono) simp_all
    moreover have "x * pow2 lb * pow2 (- lb) = x"
    proof -
      have "pow2 lb * pow2 (- lb) = 1" using pow2_add [of lb "- lb"] by (simp add: pow2_0)
      then show ?thesis by (simp only: mult.assoc mult_1_right)
    qed
    moreover have "pow2 (la + 1) * pow2 (- lb) = pow2 (la - lb + 1)"
      using pow2_add [of "la + 1" "- lb"] by (simp add: algebra_simps)
    ultimately show ?thesis by simp
  qed
  have lo: "pow2 (la - lb - 1) < x"
  proof -
    have "x * of_int b < x * pow2 (lb + 1)" using b2 assms by (intro mult_strict_left_mono) simp_all
    then have "pow2 la < x * pow2 (lb + 1)" using xb a1 by simp
    then have "pow2 la * pow2 (- (lb + 1)) < x * pow2 (lb + 1) * pow2 (- (lb + 1))"
      using pow2_pos [of "- (lb + 1)"] by (intro mult_strict_right_mono) simp_all
    moreover have "x * pow2 (lb + 1) * pow2 (- (lb + 1)) = x"
    proof -
      have "pow2 (lb + 1) * pow2 (- (lb + 1)) = 1"
        using pow2_add [of "lb + 1" "- (lb + 1)"] by (simp add: pow2_0)
      then show ?thesis by (simp only: mult.assoc mult_1_right)
    qed
    moreover have "pow2 la * pow2 (- (lb + 1)) = pow2 (la - lb - 1)"
      using pow2_add [of la "- (lb + 1)"] by (simp add: algebra_simps)
    ultimately show ?thesis by (simp only:)
  qed
  have f: "floorLog2 x = (if pow2 (la - lb) \<le> x then la - lb else la - lb - 1)"
    by (simp add: floorLog2_def q la_def lb_def)
  show ?thesis
  proof (cases "pow2 (la - lb) \<le> x")
    case True
    then show ?thesis using up f by simp
  next
    case False
    then have "floorLog2 x + 1 = la - lb" using f by simp
    then show ?thesis using False lo f by simp
  qed
qed

lemma roundHalfEven_error: "\<bar>of_int (roundHalfEven x) - x\<bar> \<le> 1 / 2"
proof -
  have "of_int \<lfloor>x\<rfloor> \<le> x" "x < of_int \<lfloor>x\<rfloor> + 1" by linarith+
  then show ?thesis by (auto simp: roundHalfEven_def Let_def)
qed

lemma roundHalfEven_int: "roundHalfEven (of_int z) = z"
  by (simp add: roundHalfEven_def)

lemma roundHalfEven_bound:
  assumes "\<bar>x\<bar> < of_int m"
  shows "\<bar>roundHalfEven x\<bar> \<le> m"
proof -
  have "\<bar>of_int (roundHalfEven x) :: rat\<bar> < of_int m + 1"
    using roundHalfEven_error [of x] assms by linarith
  then have "(of_int \<bar>roundHalfEven x\<bar> :: rat) < of_int (m + 1)" by simp
  then have "\<bar>roundHalfEven x\<bar> < m + 1" by (simp only: of_int_less_iff)
  then show ?thesis by simp
qed

text \<open>The shape of every rounded value.\<close>

lemma rd_form:
  assumes "x \<noteq> 0"
  shows "\<exists>n e. rd x = of_int n * pow2 (e - 52) \<and> - 1022 \<le> e \<and> \<bar>n\<bar> \<le> 2 ^ 53 \<and>
           e = max (floorLog2 \<bar>x\<bar>) (- 1022)"
proof -
  define e where "e = max (floorLog2 \<bar>x\<bar>) (- 1022)"
  define q where "q = pow2 (e - 52)"
  have qpos: "0 < q" by (simp add: q_def pow2_pos)
  have r: "rd x = of_int (roundHalfEven (x / q)) * q"
    using assms by (simp add: rd_def Let_def e_def q_def)
  have "\<bar>x\<bar> < pow2 (floorLog2 \<bar>x\<bar> + 1)" using floorLog2_bounds [of "\<bar>x\<bar>"] assms by simp
  also have "\<dots> \<le> pow2 (e + 1)" by (rule pow2_le) (simp add: e_def)
  also have "\<dots> = pow2 53 * q" using pow2_add [of 53 "e - 52"] by (simp add: q_def algebra_simps)
  finally have "\<bar>x\<bar> / q < pow2 53" using qpos by (simp add: pos_divide_less_eq)
  then have "\<bar>x / q\<bar> < of_int (2 ^ 53)" using qpos by (simp add: pow2_nat)
  then have "\<bar>roundHalfEven (x / q)\<bar> \<le> 2 ^ 53" by (rule roundHalfEven_bound)
  then show ?thesis using r by (intro exI [of _ "roundHalfEven (x / q)"] exI [of _ e]) (simp add: q_def e_def)
qed

text \<open>Every value of that shape is a double: rounding leaves it as it is.\<close>

lemma rd_double:
  assumes e: "- 1022 \<le> e" and n: "\<bar>n\<bar> \<le> 2 ^ 53"
  shows "rd (of_int n * pow2 (e - 52)) = of_int n * pow2 (e - 52)"
proof (cases "n = 0")
  case True
  then show ?thesis by (simp add: rd_def)
next
  case False
  define y where "y = (of_int n :: rat) * pow2 (e - 52)"
  have y0: "y \<noteq> 0" using False pow2_pos [of "e - 52"] by (simp add: y_def)
  have ay: "\<bar>y\<bar> = of_int \<bar>n\<bar> * pow2 (e - 52)"
    using pow2_pos [of "e - 52"] by (simp add: y_def abs_mult)
  have "(of_int \<bar>n\<bar> :: rat) \<le> of_int (2 ^ 53)" using n by (simp only: of_int_le_iff)
  then have "\<bar>y\<bar> \<le> of_int (2 ^ 53) * pow2 (e - 52)"
    unfolding ay using pow2_pos [of "e - 52"] by (intro mult_right_mono) simp_all
  also have "\<dots> = pow2 (e + 1)" using pow2_add [of 53 "e - 52"] by (simp add: pow2_nat algebra_simps)
  finally have yle: "\<bar>y\<bar> \<le> pow2 (e + 1)" .
  define e' where "e' = max (floorLog2 \<bar>y\<bar>) (- 1022)"
  define q' where "q' = pow2 (e' - 52)"
  have q'pos: "0 < q'" by (simp add: q'_def pow2_pos)
  have r: "rd y = of_int (roundHalfEven (y / q')) * q'"
    using y0 by (simp add: rd_def Let_def e'_def q'_def)
  have fb: "pow2 (floorLog2 \<bar>y\<bar>) \<le> \<bar>y\<bar>" using floorLog2_bounds [of "\<bar>y\<bar>"] y0 by simp
  have "\<exists>z. y = of_int z * q'"
  proof (cases "e' \<le> e")
    case True
    have "pow2 (e - 52) = pow2 (e - e') * q'"
      using pow2_add [of "e - e'" "e' - 52"] by (simp add: q'_def)
    moreover have "pow2 (e - e') = of_int (2 ^ nat (e - e'))" using True by (simp add: pow2_nat)
    ultimately have "y = of_int (n * 2 ^ nat (e - e')) * q'" by (simp add: y_def)
    then show ?thesis by blast
  next
    case False
    then have fe: "e' = floorLog2 \<bar>y\<bar>" using e by (simp add: e'_def max_def split: if_splits)
    have "pow2 e' \<le> pow2 (e + 1)" using fb yle unfolding fe by simp
    then have "e' \<le> e + 1" by (rule pow2_le_cancel)
    then have e1: "e' = e + 1" using False by simp
    have "\<bar>y\<bar> = pow2 (e + 1)" using fb yle unfolding fe [symmetric] e1 by simp
    then have "of_int \<bar>n\<bar> * pow2 (e - 52) = of_int (2 ^ 53) * pow2 (e - 52)"
      using ay pow2_add [of 53 "e - 52"] by (simp add: pow2_nat algebra_simps)
    then have "(of_int \<bar>n\<bar> :: rat) = of_int (2 ^ 53)" using pow2_pos [of "e - 52"] by simp
    then have an: "\<bar>n\<bar> = 2 ^ 53" by (simp only: of_int_eq_iff)
    have q2: "q' = 2 * pow2 (e - 52)" using pow2_Suc [of "e - 52"] by (simp add: q'_def e1)
    have "n = 2 ^ 53 \<or> n = - (2 ^ 53)" using an by linarith
    then have "n = 2 * (n div 2)" by (elim disjE) simp_all
    then have "(of_int n :: rat) = 2 * of_int (n div 2)"
      by (metis of_int_mult of_int_numeral)
    then have "y = of_int (n div 2) * q'" by (simp add: y_def q2)
    then show ?thesis by blast
  qed
  then obtain z where z: "y = of_int z * q'" by blast
  then have "y / q' = of_int z" using q'pos by simp
  then have "rd y = of_int z * q'" using r by (simp add: roundHalfEven_int)
  then show ?thesis using z by (simp add: y_def)
qed

lemma rd_idem: "rd (rd x) = rd x"
proof (cases "x = 0")
  case True
  then show ?thesis by (simp add: rd_def)
next
  case False
  from rd_form [OF False] obtain n e where
    "rd x = of_int n * pow2 (e - 52)" "- 1022 \<le> e" "\<bar>n\<bar> \<le> 2 ^ 53" by blast
  then show ?thesis using rd_double [of e n] by simp
qed

lemma rd_int:
  assumes "\<bar>z\<bar> \<le> 2 ^ 53"
  shows "rd (of_int z) = of_int z"
  using rd_double [of 52 z] assms by (simp add: pow2_0)

lemma rd_bound:
  assumes "\<bar>x\<bar> \<le> pow2 K" "- 1022 \<le> K"
  shows "\<bar>rd x\<bar> \<le> pow2 (K + 1)"
proof (cases "x = 0")
  case True
  then show ?thesis using pow2_pos [of "K + 1"] by (simp add: rd_def)
next
  case False
  from rd_form [OF False] obtain n e where f:
    "rd x = of_int n * pow2 (e - 52)" "- 1022 \<le> e" "\<bar>n\<bar> \<le> 2 ^ 53"
    "e = max (floorLog2 \<bar>x\<bar>) (- 1022)" by blast
  have "pow2 (floorLog2 \<bar>x\<bar>) \<le> pow2 K"
    using floorLog2_bounds [of "\<bar>x\<bar>"] False assms(1) by simp
  then have "floorLog2 \<bar>x\<bar> \<le> K" by (rule pow2_le_cancel)
  then have eK: "e \<le> K" using f(4) assms(2) by simp
  have "(of_int \<bar>n\<bar> :: rat) \<le> of_int (2 ^ 53)" using f(3) by (simp only: of_int_le_iff)
  then have "of_int \<bar>n\<bar> * pow2 (e - 52) \<le> of_int (2 ^ 53) * pow2 (e - 52)"
    using pow2_pos [of "e - 52"] by (intro mult_right_mono) simp_all
  also have "\<dots> = pow2 (e + 1)" using pow2_add [of 53 "e - 52"] by (simp add: pow2_nat algebra_simps)
  also have "\<dots> \<le> pow2 (K + 1)" using eK by (intro pow2_le) simp
  finally show ?thesis using pow2_pos [of "e - 52"] by (simp add: f(1) abs_mult)
qed

section \<open>Difficulty score\<close>

lemma fl_Num:
  assumes "\<bar>x\<bar> \<le> pow2 K" "- 1022 \<le> K" "K < 1023"
  shows "fl x = Num (rd x) \<and> \<bar>rd x\<bar> \<le> pow2 (K + 1)"
proof -
  have b: "\<bar>rd x\<bar> \<le> pow2 (K + 1)" using rd_bound [OF assms(1,2)] .
  have "\<not> 1024 \<le> floorLog2 \<bar>rd x\<bar>" if "rd x \<noteq> 0"
  proof -
    have "pow2 (floorLog2 \<bar>rd x\<bar>) \<le> pow2 (K + 1)"
      using floorLog2_bounds [of "\<bar>rd x\<bar>"] that b by simp
    then have "floorLog2 \<bar>rd x\<bar> \<le> K + 1" by (rule pow2_le_cancel)
    then show ?thesis using assms(3) by simp
  qed
  then show ?thesis using b by (auto simp: fl_def Let_def)
qed

lemma fl_int:
  assumes "\<bar>z\<bar> \<le> 2 ^ 53"
  shows "fl (of_int z) = Num (of_int z)"
proof -
  have "(of_int \<bar>z\<bar> :: rat) \<le> of_int (2 ^ 53)" using assms by (simp only: of_int_le_iff)
  then have "\<bar>of_int z :: rat\<bar> \<le> pow2 53" by (simp add: pow2_nat)
  then show ?thesis using fl_Num [of "of_int z" 53] rd_int [OF assms] by simp
qed

lemma fl_nat:
  assumes "n \<le> 2 ^ 53"
  shows "fl (of_nat n) = Num (of_nat n)"
proof -
  have "\<bar>int n\<bar> \<le> 2 ^ 53" using assms by (simp add: le_nat_iff [symmetric] nat_le_iff) 
  then show ?thesis using fl_int [of "int n"] by simp
qed

lemma ofNat_small: "n \<le> 2 ^ 53 \<Longrightarrow> ofNat n = Num (of_nat n)"
  by (simp add: ofNat_def fl_nat)

lemma fl_idem: "nadd (Num 0) (fl x) = fl x"
proof -
  have "fl (rd x) = fl x" by (simp add: fl_def Let_def rd_idem)
  then show ?thesis by (cases "fl x") (auto simp: fl_def Let_def split: if_splits)
qed

lemma nadd_zero_nmul: "nadd (Num 0) (nmul x (Num c)) = nmul x (Num c)"
  by (cases x) (simp_all add: fl_idem signedInf_def)

lemma nmul_commute: "nmul x y = nmul y x"
  by (cases x; cases y) (simp_all add: mult.commute)

lemma opComplexity_weight:
  "(case opComplexity op of Some w \<Rightarrow> w | None \<Rightarrow> Num 0) = ofNat (spec_weight op)"
  by (cases op) (simp_all add: opComplexity_def spec_weight_def ofNat_small)

lemma estimateDifficulty_spec: "estimateDifficulty p = nmax (Num 0) (spec_score p)"
  by (simp add: estimateDifficulty_def spec_score_def spec_average_def Let_def nadd_zero_nmul
      opComplexity_weight foldl_map nmul_commute [of "Num 2"] nmul_commute [of "Num 5"])

text \<open>Sums of whole numbers below \<open>2 ^ 53\<close> are exact.\<close>

lemma foldl_nadd_exact:
  assumes "a + sum_list (map f xs) \<le> 2 ^ 53"
  shows "foldl nadd (Num (of_nat a)) (map (\<lambda>c. ofNat (f c)) xs)
           = Num (of_nat (a + sum_list (map f xs)))"
  using assms
proof (induction xs arbitrary: a)
  case Nil
  then show ?case by simp
next
  case (Cons x xs)
  have le: "f x \<le> 2 ^ 53" "a + f x \<le> 2 ^ 53" using Cons.prems by simp_all
  have "nadd (Num (of_nat a)) (ofNat (f x)) = Num (of_nat (a + f x))"
    using fl_nat [OF le(2)] by (simp add: ofNat_small [OF le(1)])
  moreover have "(a + f x) + sum_list (map f xs) \<le> 2 ^ 53" using Cons.prems by simp
  ultimately show ?case using Cons.IH [of "a + f x"] by (simp add: add.assoc)
qed

lemma weight_le: "sum_list (map (\<lambda>c. spec_weight (operation (clue c))) xs) \<le> 20 * length xs"
proof (induction xs)
  case Nil
  then show ?case by simp
next
  case (Cons x xs)
  have "spec_weight (operation (clue x)) \<le> 20"
    by (cases "operation (clue x)") (simp_all add: spec_weight_def)
  then show ?case using Cons by simp
qed

lemma spec_score_rounded:
  assumes ne: "cages p \<noteq> []"
    and b1: "psize p * 10 + 20 * length (cages p) \<le> 2 ^ 53"
    and b2: "cellCount p \<le> 2 ^ 53"
  shows "spec_score p = Num (roundedScore p)"
proof -
  define m where "m = length (cages p)"
  have m0: "0 < m" using ne by (simp add: m_def)
  have mle: "m \<le> 2 ^ 53" using b1 by (simp add: m_def)
  have wle: "weightSum p \<le> 2 ^ 53"
    using b1 weight_le [of "cages p"] by (simp add: weightSum_def)
  have kle: "5 * singleCells p \<le> 2 ^ 53"
  proof -
    have "singleCells p \<le> m" by (simp add: singleCells_def m_def)
    then show ?thesis using b1 by (simp add: m_def)
  qed
  have s10: "psize p * 10 \<le> 2 ^ 53" "psize p \<le> 2 ^ 53" using b1 by simp_all
  \<comment> \<open>the whole-number part\<close>
  have base: "nmul (ofNat (psize p)) (Num 10) = Num (of_nat (psize p * 10))"
    using fl_nat [OF s10(1)] by (simp add: ofNat_small [OF s10(2)])
  have sum1: "foldl nadd (nmul (ofNat (psize p)) (Num 10))
                (map (\<lambda>c. ofNat (spec_weight (operation (clue c)))) (cages p))
              = Num (of_nat (weightSum p))"
    unfolding base
    using foldl_nadd_exact [of "psize p * 10" "\<lambda>c. spec_weight (operation (clue c))" "cages p"] wle
    by (simp add: weightSum_def)
  have sum2: "foldl nadd (Num 0) (map (\<lambda>c. ofNat (length (cells c))) (cages p))
              = Num (of_nat (cellCount p))"
    using foldl_nadd_exact [of 0 "\<lambda>c. length (cells c)" "cages p"] b2
    by (simp add: cellCount_def)
  \<comment> \<open>the average\<close>
  define t :: rat where "t = of_nat (cellCount p) / of_nat m"
  have t0: "0 \<le> t" by (simp add: t_def)
  have "t \<le> of_nat (cellCount p)"
  proof -
    have "(1::rat) \<le> of_nat m" using m0 by simp
    then have "of_nat (cellCount p) / of_nat m \<le> (of_nat (cellCount p) :: rat) / 1"
      by (intro divide_left_mono) simp_all
    then show ?thesis by (simp add: t_def)
  qed
  moreover have "(of_nat (cellCount p) :: rat) \<le> of_nat (2 ^ 53)" using b2 by (simp only: of_nat_le_iff)
  ultimately have tle: "\<bar>t\<bar> \<le> pow2 53" using t0 by (simp add: pow2_nat)
  have avg: "spec_average p = Num (rd t)" "\<bar>rd t\<bar> \<le> pow2 54"
    using fl_Num [OF tle] m0 sum2
    by (simp_all add: spec_average_def ofNat_small [OF mle] m_def [symmetric] t_def)
  \<comment> \<open>its double\<close>
  have "\<bar>2 * rd t\<bar> \<le> pow2 55" using avg(2) pow2_Suc [of 54] by simp
  from fl_Num [OF this]
  have dbl: "nmul (Num 2) (spec_average p) = Num (rd (2 * rd t))" "\<bar>rd (2 * rd t)\<bar> \<le> pow2 56"
    by (simp_all add: avg(1))
  \<comment> \<open>the two differences\<close>
  have wp: "\<bar>of_nat (weightSum p) :: rat\<bar> \<le> pow2 56"
  proof -
    have "(of_nat (weightSum p) :: rat) \<le> of_nat (2 ^ 53)" using wle by (simp only: of_nat_le_iff)
    moreover have "pow2 53 \<le> pow2 56" by (intro pow2_le) simp
    ultimately show ?thesis by (simp add: pow2_nat)
  qed
  define d1 :: rat where "d1 = of_nat (weightSum p) - rd (2 * rd t)"
  have "\<bar>d1\<bar> \<le> pow2 57" using wp dbl(2) pow2_Suc [of 56] by (simp add: d1_def)
  from fl_Num [OF this]
  have diff1: "fl d1 = Num (rd d1)" "\<bar>rd d1\<bar> \<le> pow2 58" by simp_all
  have five: "nmul (Num 5) (ofNat (singleCells p)) = Num (5 * of_nat (singleCells p))"
  proof -
    have "singleCells p \<le> 2 ^ 53" using kle by simp
    then show ?thesis using fl_nat [OF kle] by (simp add: ofNat_small)
  qed
  have kp: "\<bar>5 * of_nat (singleCells p) :: rat\<bar> \<le> pow2 58"
  proof -
    have "(of_nat (5 * singleCells p) :: rat) \<le> of_nat (2 ^ 53)" using kle by (simp only: of_nat_le_iff)
    moreover have "pow2 53 \<le> pow2 58" by (intro pow2_le) simp
    ultimately show ?thesis by (simp add: pow2_nat)
  qed
  define d2 :: rat where "d2 = rd d1 - 5 * of_nat (singleCells p)"
  have "\<bar>d2\<bar> \<le> pow2 59" using kp diff1(2) pow2_Suc [of 58] by (simp add: d2_def)
  from fl_Num [OF this]
  have diff2: "fl d2 = Num (rd d2)" by simp
  have "spec_score p = fl d2"
    unfolding spec_score_def sum1 dbl(1) singleCells_def [symmetric] five
    using diff1(1) by (simp add: nsub_def d1_def d2_def)
  then show ?thesis
    using diff2 by (simp add: roundedScore_def d2_def d1_def t_def m_def)
qed

lemma score_singleCellPuzzle2:
  "estimateDifficulty singleCellPuzzle2 = Num 0"
  "spec_score singleCellPuzzle2 = Num (- 2)"
  "exactScore singleCellPuzzle2 = - 2"
  by code_simp+

lemma score_fixtures:
  "roundedScore difficultyFixture = 61"
  "roundedScore validatorFixture = 2512164167142605 / 35184372088832"
  "exactScore validatorFixture = 357 / 5"
  "estimateDifficulty noCagePuzzle = NaN"
  by code_simp+

lemma fixtures_in_range:
  "cages difficultyFixture \<noteq> []"
  "psize difficultyFixture * 10 + 20 * length (cages difficultyFixture) \<le> 2 ^ 53"
  "cellCount difficultyFixture \<le> 2 ^ 53"
  "cages validatorFixture \<noteq> []"
  "psize validatorFixture * 10 + 20 * length (cages validatorFixture) \<le> 2 ^ 53"
  "cellCount validatorFixture \<le> 2 ^ 53"
  by (simp_all add: difficultyFixture_def validatorFixture_def mkPuzzle_def mkCage_def
      cellCount_def)

text \<open>
  Claim C8, as stated, fails: the score is not the bare formula.  On the 2 x 2
  puzzle of four single-cell cages the formula gives \<open>20 + 0 - 2 - 20 = -2\<close>,
  in exact arithmetic and in the arithmetic of doubles alike, and
  \<open>estimateDifficulty\<close> returns \<open>Math.max(0, score) = 0\<close>.
\<close>

theorem estimateDifficulty_not_formula:
  "estimateDifficulty singleCellPuzzle2 = Num 0 \<and>
   spec_score singleCellPuzzle2 = Num (- 2) \<and>
   exactScore singleCellPuzzle2 = - 2"
  using score_singleCellPuzzle2 by simp

text \<open>
  Claim C8, amended.  For every puzzle the difficulty score is the larger of
  0 and the formula, \<open>size * 10\<close> plus the operation weight of every cage
  (\<open>+\<close> 5, \<open>-\<close> 10, \<open>\<times>\<close> 15, \<open>\<div>\<close> 20, \<open>none\<close> 0) minus twice the average cage
  size minus 5 per single-cell cage, evaluated in the double arithmetic of
  JavaScript from left to right (\<open>NaN\<close> when there is no cage).  When there is
  a cage, \<open>size * 10 + 20 * (number of cages)\<close> is at most \<open>2 ^ 53\<close> and the cages
  have at most \<open>2 ^ 53\<close> cells in all, the sums of whole numbers are exact and
  the score is the larger of 0 and the formula with just the average, its
  double and the two differences rounded to the nearest double.
\<close>

theorem estimateDifficulty_clamped:
  "estimateDifficulty p = nmax (Num 0) (spec_score p) \<and>
   (cages p \<noteq> [] \<and> psize p * 10 + 20 * length (cages p) \<le> 2 ^ 53 \<and> cellCount p \<le> 2 ^ 53
      \<longrightarrow> estimateDifficulty p = Num (max 0 (roundedScore p)))"
proof -
  have "estimateDifficulty p = Num (max 0 (roundedScore p))"
    if "cages p \<noteq> []" "psize p * 10 + 20 * length (cages p) \<le> 2 ^ 53" "cellCount p \<le> 2 ^ 53"
    using estimateDifficulty_spec [of p] spec_score_rounded [OF that] by simp
  then show ?thesis using estimateDifficulty_spec [of p] by blast
qed

theorem estimateDifficulty_clamped_witness:
  "cages difficultyFixture \<noteq> [] \<and>
   psize difficultyFixture * 10 + 20 * length (cages difficultyFixture) \<le> 2 ^ 53 \<and>
   cellCount difficultyFixture \<le> 2 ^ 53 \<and>
   estimateDifficulty difficultyFixture = Num 61 \<and>
   cages validatorFixture \<noteq> [] \<and>
   psize validatorFixture * 10 + 20 * length (cages validatorFixture) \<le> 2 ^ 53 \<and>
   cellCount validatorFixture \<le> 2 ^ 53 \<and>
   estimateDifficulty validatorFixture = Num (2512164167142605 / 35184372088832)"
proof -
  have "estimateDifficulty difficultyFixture = Num 61"
    using estimateDifficulty_clamped [of difficultyFixture, THEN conjunct2]
      fixtures_in_range(1,2,3) score_fixtures(1)
    by simp
  moreover have "estimateDifficulty validatorFixture = Num (2512164167142605 / 35184372088832)"
    using estimateDifficulty_clamped [of validatorFixture, THEN conjunct2]
      fixtures_in_range(4,5,6) score_fixtures(2)
    by simp
  ultimately show ?thesis using fixtures_in_range by simp
qed
section \<open>The solver\<close>

subsection \<open>Grids and their prefixes\<close>

lemma gridShape_setCell:
  assumes "gridShape n g" shows "gridShape n (setCell g r c v)"
  unfolding gridShape_def
proof (intro conjI allI impI)
  show "length (setCell g r c v) = n" using assms by (simp add: gridShape_def setCell_def)
next
  fix q assume "q < n"
  then show "length (setCell g r c v ! q) = n"
    using assms by (cases "q = r") (simp_all add: gridShape_def setCell_def)
qed

lemma nth_setCell:
  "gridShape n g \<Longrightarrow> r < n \<Longrightarrow> c < n \<Longrightarrow> r' < n \<Longrightarrow> c' < n \<Longrightarrow>
   setCell g r c v ! r' ! c' = (if r' = r \<and> c' = c then v else g ! r' ! c')"
  by (auto simp: gridShape_def setCell_def nth_list_update)

lemma grid_ext:
  assumes "gridShape n g" "gridShape n h" "\<And>r c. r < n \<Longrightarrow> c < n \<Longrightarrow> g ! r ! c = h ! r ! c"
  shows "g = h"
proof (rule nth_equalityI)
  show "length g = length h" using assms(1,2) by (simp add: gridShape_def)
next
  fix r assume "r < length g"
  then have r: "r < n" using assms(1) by (simp add: gridShape_def)
  show "g ! r = h ! r"
  proof (rule nth_equalityI)
    show "length (g ! r) = length (h ! r)" using assms(1,2) r by (simp add: gridShape_def)
  next
    fix c assume "c < length (g ! r)"
    then have "c < n" using assms(1) r by (simp add: gridShape_def)
    then show "g ! r ! c = h ! r ! c" using r by (rule assms(3) [rotated])
  qed
qed

lemma gridShape_prefixGrid: "gridShape n (prefixGrid n h k)"
  by (simp add: gridShape_def prefixGrid_def)

lemma nth_prefixGrid:
  "r < n \<Longrightarrow> c < n \<Longrightarrow> prefixGrid n h k ! r ! c = (if r * n + c < k then h ! r ! c else 0)"
  by (simp add: prefixGrid_def)

lemma gridShape_createEmptyGrid: "gridShape n (createEmptyGrid n)"
  by (simp add: gridShape_def createEmptyGrid_def)

lemma index_lt: "r < n \<Longrightarrow> c < n \<Longrightarrow> r * n + c < n * (n::nat)"
proof -
  assume a: "r < n" "c < n"
  then have "r * n + c < r * n + n" by simp
  also have "\<dots> = (r + 1) * n" by simp
  also have "\<dots> \<le> n * n" using a(1) by (metis Suc_eq_plus1 Suc_leI mult.commute mult_le_mono2)
  finally show ?thesis .
qed

lemma index_div_mod:
  "k < n * n \<Longrightarrow> k div n < n \<and> k mod n < (n::nat)"
  by (metis less_mult_imp_div_less mod_less_divisor not_gr_zero not_less_zero)

lemma index_eq_iff:
  assumes "c < n"
  shows "r * n + c = k \<longleftrightarrow> r = k div n \<and> c = k mod (n::nat)"
  using assms by (auto simp: div_mult_mod_eq)

lemma prefix_step:
  assumes "k < n * n"
  shows "setCell (prefixGrid n h k) (k div n) (k mod n) (cellValue n h k) = prefixGrid n h (k + 1)"
proof (rule grid_ext [of n])
  show "gridShape n (setCell (prefixGrid n h k) (k div n) (k mod n) (cellValue n h k))"
    by (simp add: gridShape_setCell gridShape_prefixGrid)
  show "gridShape n (prefixGrid n h (k + 1))" by (rule gridShape_prefixGrid)
  fix r c assume rc: "r < n" "c < n"
  have dm: "k div n < n" "k mod n < n" using index_div_mod [OF assms] by simp_all
  have e: "r * n + c = k \<longleftrightarrow> r = k div n \<and> c = k mod n" using index_eq_iff [OF rc(2)] .
  show "setCell (prefixGrid n h k) (k div n) (k mod n) (cellValue n h k) ! r ! c
        = prefixGrid n h (k + 1) ! r ! c"
  proof (cases "r * n + c = k")
    case True
    then show ?thesis
      using rc dm e by (simp add: nth_setCell [OF gridShape_prefixGrid] nth_prefixGrid cellValue_def)
  next
    case False
    then have "\<not> (r = k div n \<and> c = k mod n)" using e by simp
    moreover have "r * n + c < k + 1 \<longleftrightarrow> r * n + c < k" using False by auto
    ultimately show ?thesis
      using rc dm by (auto simp: nth_setCell [OF gridShape_prefixGrid] nth_prefixGrid)
  qed
qed

lemma prefix_unstep:
  assumes "k < n * n"
  shows "setCell (prefixGrid n h (k + 1)) (k div n) (k mod n) 0 = prefixGrid n h k"
proof (rule grid_ext [of n])
  show "gridShape n (setCell (prefixGrid n h (k + 1)) (k div n) (k mod n) 0)"
    by (simp add: gridShape_setCell gridShape_prefixGrid)
  show "gridShape n (prefixGrid n h k)" by (rule gridShape_prefixGrid)
  fix r c assume rc: "r < n" "c < n"
  have dm: "k div n < n" "k mod n < n" using index_div_mod [OF assms] by simp_all
  have e: "r * n + c = k \<longleftrightarrow> r = k div n \<and> c = k mod n" using index_eq_iff [OF rc(2)] .
  show "setCell (prefixGrid n h (k + 1)) (k div n) (k mod n) 0 ! r ! c = prefixGrid n h k ! r ! c"
  proof (cases "r * n + c = k")
    case True
    then show ?thesis
      using rc dm e by (simp add: nth_setCell [OF gridShape_prefixGrid] nth_prefixGrid)
  next
    case False
    then have "\<not> (r = k div n \<and> c = k mod n)" using e by simp
    moreover have "r * n + c < k + 1 \<longleftrightarrow> r * n + c < k" using False by auto
    ultimately show ?thesis
      using rc dm by (auto simp: nth_setCell [OF gridShape_prefixGrid] nth_prefixGrid)
  qed
qed

lemma prefix_full:
  assumes "gridShape n h" "n * n \<le> k"
  shows "prefixGrid n h k = h"
proof (rule grid_ext [of n])
  show "gridShape n (prefixGrid n h k)" by (rule gridShape_prefixGrid)
  show "gridShape n h" by (rule assms(1))
  fix r c assume rc: "r < n" "c < n"
  then have "r * n + c < k" using index_lt [OF rc] assms(2) by simp
  then show "prefixGrid n h k ! r ! c = h ! r ! c" using rc by (simp add: nth_prefixGrid)
qed

lemma prefix_zero: "prefixGrid n h 0 = createEmptyGrid n"
proof (rule grid_ext [of n])
  show "gridShape n (prefixGrid n h 0)" by (rule gridShape_prefixGrid)
  show "gridShape n (createEmptyGrid n)" by (rule gridShape_createEmptyGrid)
  fix r c assume "r < n" "c < n"
  then show "prefixGrid n h 0 ! r ! c = createEmptyGrid n ! r ! c"
    by (simp add: nth_prefixGrid createEmptyGrid_def)
qed

lemma prefix_prefix:
  assumes "k \<le> j"
  shows "prefixGrid n (prefixGrid n h j) k = prefixGrid n h k"
proof (rule grid_ext [of n])
  fix r c assume rc: "r < n" "c < n"
  show "prefixGrid n (prefixGrid n h j) k ! r ! c = prefixGrid n h k ! r ! c"
    using rc assms by (simp add: nth_prefixGrid)
qed (simp_all add: gridShape_prefixGrid)

lemma cellValue_prefix:
  assumes "k < n * n"
  shows "cellValue n (prefixGrid n h j) k = (if k < j then cellValue n h k else 0)"
proof -
  have dm: "k div n < n" "k mod n < n" using index_div_mod [OF assms] by simp_all
  have "k div n * n + k mod n = k" by simp
  then show ?thesis using dm by (simp add: cellValue_def nth_prefixGrid)
qed

lemma cellValue_setCell_same:
  assumes "gridShape n g" "k < n * n"
  shows "cellValue n (setCell g (k div n) (k mod n) v) k = v"
  using index_div_mod [OF assms(2)] assms(1) by (simp add: cellValue_def nth_setCell)

subsection \<open>The admitted completions\<close>

declare completions.simps [simp del]
declare backtrack.simps [simp del]
declare tryValues.simps [simp del]
declare countSolutions.simps [simp del]
declare countValues.simps [simp del]

lemma zeroFrom_setCell:
  assumes "zeroFrom n g k" "k < n * n"
  shows "zeroFrom n (setCell g (k div n) (k mod n) v) (k + 1)"
proof -
  let ?g1 = "setCell g (k div n) (k mod n) v"
  have sh: "gridShape n g" and pg: "prefixGrid n g k = g" using assms(1) by (simp_all add: zeroFrom_def)
  have sh1: "gridShape n ?g1" using sh by (rule gridShape_setCell)
  have dm: "k div n < n" "k mod n < n" using index_div_mod [OF assms(2)] by simp_all
  have "prefixGrid n ?g1 (k + 1) = ?g1"
  proof (rule grid_ext [of n])
    show "gridShape n (prefixGrid n ?g1 (k + 1))" by (rule gridShape_prefixGrid)
    show "gridShape n ?g1" by (rule sh1)
    fix r c assume rc: "r < n" "c < n"
    have e: "r * n + c = k \<longleftrightarrow> r = k div n \<and> c = k mod n" using index_eq_iff [OF rc(2)] .
    have z: "g ! r ! c = 0" if "\<not> r * n + c < k"
      using that rc nth_prefixGrid [OF rc, of g k] pg by simp
    show "prefixGrid n ?g1 (k + 1) ! r ! c = ?g1 ! r ! c"
    proof (cases "r * n + c < k + 1")
      case True
      then show ?thesis using rc by (simp add: nth_prefixGrid)
    next
      case False
      then have "\<not> r * n + c < k" "r * n + c \<noteq> k" by simp_all
      then show ?thesis using rc dm z e False sh by (auto simp: nth_prefixGrid nth_setCell)
    qed
  qed
  then show ?thesis using sh1 by (simp add: zeroFrom_def)
qed

lemma zeroFrom_restore:
  assumes "zeroFrom n g k" "k < n * n"
  shows "setCell (setCell g (k div n) (k mod n) v) (k div n) (k mod n) 0 = g"
proof -
  have sh: "gridShape n g" and pg: "prefixGrid n g k = g" using assms(1) by (simp_all add: zeroFrom_def)
  have dm: "k div n < n" "k mod n < n" using index_div_mod [OF assms(2)] by simp_all
  have "k div n * n + k mod n = k" by simp
  then have z: "g ! (k div n) ! (k mod n) = 0"
    using nth_prefixGrid [OF dm, of g k] pg by simp
  show ?thesis
  proof (rule grid_ext [of n])
    show "gridShape n (setCell (setCell g (k div n) (k mod n) v) (k div n) (k mod n) 0)"
      using sh by (simp add: gridShape_setCell)
    show "gridShape n g" by (rule sh)
    fix r c assume rc: "r < n" "c < n"
    have s1: "setCell (setCell g (k div n) (k mod n) v) (k div n) (k mod n) 0 ! r ! c
          = (if r = k div n \<and> c = k mod n then 0 else setCell g (k div n) (k mod n) v ! r ! c)"
      using nth_setCell [OF gridShape_setCell [OF sh] dm rc] .
    have s2: "setCell g (k div n) (k mod n) v ! r ! c
          = (if r = k div n \<and> c = k mod n then v else g ! r ! c)"
      using nth_setCell [OF sh dm rc] .
    show "setCell (setCell g (k div n) (k mod n) v) (k div n) (k mod n) 0 ! r ! c = g ! r ! c"
      unfolding s1 s2 using z by auto
  qed
qed

lemma zeroFrom_empty: "zeroFrom n (createEmptyGrid n) 0"
  using prefix_zero [of n "createEmptyGrid n"] by (simp add: zeroFrom_def gridShape_createEmptyGrid)

lemma okFrom_step:
  assumes "k < psize p * psize p"
  shows "okFrom strict p h k \<longleftrightarrow> okAt strict p h k \<and> okFrom strict p h (k + 1)"
proof
  assume a: "okFrom strict p h k"
  have "okAt strict p h k" using a assms by (simp add: okFrom_def)
  moreover have "okFrom strict p h (k + 1)" using a by (simp add: okFrom_def)
  ultimately show "okAt strict p h k \<and> okFrom strict p h (k + 1)" by simp
next
  assume a: "okAt strict p h k \<and> okFrom strict p h (k + 1)"
  show "okFrom strict p h k"
    unfolding okFrom_def
  proof (intro allI impI)
    fix j assume j: "k \<le> j \<and> j < psize p * psize p"
    show "okAt strict p h j"
    proof (cases "j = k")
      case True
      then show ?thesis using a by simp
    next
      case False
      then have "k + 1 \<le> j" using j by simp
      then show ?thesis using a j by (simp add: okFrom_def)
    qed
  qed
qed

lemma completions_done:
  "psize p * psize p \<le> k \<Longrightarrow> completions strict p g k = [g]"
  by (subst completions.simps) simp

lemma completions_mem:
  assumes "k < psize p * psize p"
  shows "h \<in> set (completions strict p g k) \<longleftrightarrow>
        (\<exists>v. 1 \<le> v \<and> v \<le> psize p \<and> stepOK strict p g k (int v) \<and>
            h \<in> set (completions strict p
                        (setCell g (k div psize p) (k mod psize p) (int v)) (k + 1)))"
proof -
  have r: "set [1..<psize p + 1] = {v. 1 \<le> v \<and> v \<le> psize p}" by auto
  have "h \<in> set (completions strict p g k) \<longleftrightarrow>
     h \<in> set (concat (map (\<lambda>v. if stepOK strict p g k (int v)
                            then completions strict p
                                   (setCell g (k div psize p) (k mod psize p) (int v)) (k + 1)
                            else [])
                       [1..<psize p + 1]))"
    using assms by (subst completions.simps) (simp only: not_le [symmetric] if_False)
  also have "\<dots> \<longleftrightarrow> (\<exists>v \<in> set [1..<psize p + 1]. h \<in> set (if stepOK strict p g k (int v)
                            then completions strict p
                                   (setCell g (k div psize p) (k mod psize p) (int v)) (k + 1)
                            else []))"
    by (simp only: set_concat set_map UN_iff bex_simps image_iff)
  also have "\<dots> \<longleftrightarrow> (\<exists>v. 1 \<le> v \<and> v \<le> psize p \<and> stepOK strict p g k (int v) \<and>
            h \<in> set (completions strict p
                        (setCell g (k div psize p) (k mod psize p) (int v)) (k + 1)))"
    unfolding r by (auto split: if_splits)
  finally show ?thesis .
qed
lemma completions_iff:
  assumes "zeroFrom (psize p) g k"
  shows "h \<in> set (completions strict p g k) \<longleftrightarrow>
         gridShape (psize p) h \<and> prefixGrid (psize p) h k = g \<and> okFrom strict p h k"
  using assms
proof (induction strict p g k arbitrary: h rule: completions.induct)
  case (1 strict p g k)
  let ?n = "psize p"
  have sh: "gridShape ?n g" and pg: "prefixGrid ?n g k = g"
    using "1.prems" by (simp_all add: zeroFrom_def)
  show ?case
  proof (cases "k \<ge> ?n * ?n")
    case True
    have "okFrom strict p h k" using True by (auto simp: okFrom_def)
    moreover have "gridShape ?n h \<Longrightarrow> prefixGrid ?n h k = h" using True by (simp add: prefix_full)
    ultimately show ?thesis using sh by (auto simp: completions_done [OF True])
  next
    case False
    then have kl: "k < ?n * ?n" by simp
    let ?r = "k div ?n" and ?c = "k mod ?n"
    note mem = completions_mem [OF kl, of h strict g]
    have ih: "h \<in> set (completions strict p (setCell g ?r ?c (int v)) (k + 1)) \<longleftrightarrow>
         gridShape ?n h \<and> prefixGrid ?n h (k + 1) = setCell g ?r ?c (int v) \<and> okFrom strict p h (k + 1)"
      if "1 \<le> v" "v \<le> ?n" "stepOK strict p g k (int v)" for v
    proof -
      have "v \<in> set [1..<?n + 1]" using that(1,2) by (simp del: upt_Suc)
      then show ?thesis
        by (rule "1.IH" [OF False _ that(3) zeroFrom_setCell [OF "1.prems" kl]])
    qed
    show ?thesis
    proof
      assume "h \<in> set (completions strict p g k)"
      then obtain v where v0: "1 \<le> v" "v \<le> ?n" "stepOK strict p g k (int v)"
        "h \<in> set (completions strict p (setCell g ?r ?c (int v)) (k + 1))"
        using mem by blast
      have v: "gridShape ?n h" "prefixGrid ?n h (k + 1) = setCell g ?r ?c (int v)" "okFrom strict p h (k + 1)"
        using ih [OF v0(1,2,3)] v0(4) by simp_all
      have cv: "cellValue ?n h k = int v"
      proof -
        have "cellValue ?n (prefixGrid ?n h (k + 1)) k = cellValue ?n h k"
          using kl by (simp add: cellValue_prefix)
        moreover have "cellValue ?n (setCell g ?r ?c (int v)) k = int v"
          using sh kl by (rule cellValue_setCell_same)
        ultimately show ?thesis using v(2) by simp
      qed
      have "prefixGrid ?n h k = setCell (prefixGrid ?n h (k + 1)) ?r ?c 0"
        using prefix_unstep [OF kl, of h] by simp
      also have "\<dots> = g" unfolding v(2) using zeroFrom_restore [OF "1.prems" kl] .
      finally have pk: "prefixGrid ?n h k = g" .
      have "okAt strict p h k" using v0(1,2,3) cv pk by (simp add: okAt_def)
      then show "gridShape ?n h \<and> prefixGrid ?n h k = g \<and> okFrom strict p h k"
        using v(1,3) pk okFrom_step [OF kl] by simp
    next
      assume a: "gridShape ?n h \<and> prefixGrid ?n h k = g \<and> okFrom strict p h k"
      then have ok: "okAt strict p h k" "okFrom strict p h (k + 1)"
        using okFrom_step [OF kl] by simp_all
      define v where "v = nat (cellValue ?n h k)"
      have v: "int v = cellValue ?n h k" "1 \<le> v" "v \<le> ?n"
        using ok(1) by (auto simp: okAt_def v_def)
      have st: "stepOK strict p g k (int v)" using ok(1) a v(1) by (simp add: okAt_def)
      have "setCell g ?r ?c (int v) = prefixGrid ?n h (k + 1)"
        using prefix_step [OF kl, of h] a v(1) by simp
      then have "h \<in> set (completions strict p (setCell g ?r ?c (int v)) (k + 1))"
        using ih [OF v(2,3) st] a ok(2) by simp
      then show "h \<in> set (completions strict p g k)" using mem v(2,3) st by blast
    qed
  qed
qed

subsection \<open>The checks never throw on the solver's own grid\<close>

lemma readCell_shape:
  "gridShape n g \<Longrightarrow> r < n \<Longrightarrow>
   readCell g r c = Inr (if c < n then Some (g ! r ! c) else None)"
  by (simp add: readCell_def gridShape_def)

lemma rowClash_shape:
  assumes "gridShape n g" "r < n" "\<forall>k \<in> set ks. k < n"
  shows "rowClash g r c v ks = Inr (\<exists>k \<in> set ks. k \<noteq> c \<and> g ! r ! k = v)"
  using assms(3) by (induction ks) (auto simp: readCell_shape [OF assms(1,2)])

lemma colClash_shape:
  assumes "gridShape n g" "c < n" "\<forall>k \<in> set ks. k < n"
  shows "colClash g r c v ks = Inr (\<exists>k \<in> set ks. k \<noteq> r \<and> g ! k ! c = v)"
  using assms(3) by (induction ks) (auto simp: readCell_shape [OF assms(1)] assms(2))

lemma isValidPlacement_shape:
  assumes "gridShape n g" "r < n" "c < n"
  shows "isValidPlacement g r c v n =
     Inr ((\<forall>k < n. k \<noteq> c \<longrightarrow> g ! r ! k \<noteq> v) \<and> (\<forall>k < n. k \<noteq> r \<longrightarrow> g ! k ! c \<noteq> v))"
proof -
  have a: "rowClash g r c v [0..<n] = Inr (\<exists>k \<in> set [0..<n]. k \<noteq> c \<and> g ! r ! k = v)"
    by (rule rowClash_shape [OF assms(1,2)]) simp
  have b: "colClash g r c v [0..<n] = Inr (\<exists>k \<in> set [0..<n]. k \<noteq> r \<and> g ! k ! c = v)"
    by (rule colClash_shape [OF assms(1,3)]) simp
  show ?thesis unfolding isValidPlacement_def a b by (auto split: bool.splits)
qed

lemma readCells_shape:
  assumes "gridShape n g" "\<forall>x \<in> set cs. row x < n"
  shows "readCells g cs =
     Inr (map (\<lambda>x. if col x < n then Some (g ! row x ! col x) else None) cs)"
  using assms(2) by (induction cs) (simp_all add: readCell_shape [OF assms(1)])

lemma isCageSatisfied_total:
  assumes "gridShape n g" "\<forall>x \<in> set (cells cg). row x < n"
  shows "\<exists>b. isCageSatisfied cg g a = Inr b"
  by (simp add: isCageSatisfied_def readCells_shape [OF assms] Let_def)

subsection \<open>The value loop and the admitted completions\<close>

lemma candidates_done: "psize p < v \<Longrightarrow> candidates strict p g k v = []"
  by (simp add: candidates_def del: upt_Suc)

lemma candidates_step:
  "v \<le> psize p \<Longrightarrow>
   candidates strict p g k v =
     (if stepOK strict p g k (int v)
      then completions strict p (setCell g (k div psize p) (k mod psize p) (int v)) (k + 1)
      else []) @ candidates strict p g k (v + 1)"
proof -
  assume "v \<le> psize p"
  then have "[v..<psize p + 1] = v # [v + 1..<psize p + 1]" by (simp add: upt_conv_Cons del: upt_Suc)
  then show ?thesis by (simp add: candidates_def del: upt_Suc)
qed

lemma completions_candidates:
  "k < psize p * psize p \<Longrightarrow> completions strict p g k = candidates strict p g k 1"
  by (subst completions.simps) (simp add: candidates_def del: upt_Suc)

lemma cage_check_total:
  assumes "rowsInGrid p" "gridShape (psize p) g"
  shows "\<exists>b. (case getCageForCell (cages p) r c of
                None \<Rightarrow> Inr True
              | Some cg \<Rightarrow> isCageSatisfied cg g True) = Inr b"
proof (cases "getCageForCell (cages p) r c")
  case None
  then show ?thesis by auto
next
  case (Some cg)
  then have "cg \<in> set (cages p)" by (auto simp: getCageForCell_def find_Some_iff)
  then have "\<forall>x \<in> set (cells cg). row x < psize p" using assms(1) by (simp add: rowsInGrid_def)
  then show ?thesis using isCageSatisfied_total [OF assms(2), of cg True] Some by simp
qed

lemma isValidPlacement_total:
  assumes "gridShape n g" "k < n * n"
  shows "\<exists>b. isValidPlacement g (k div n) (k mod n) v n = Inr b"
  using isValidPlacement_shape [OF assms(1), of "k div n" "k mod n" v] index_div_mod [OF assms(2)]
  by simp

lemma count_correct:
  assumes rows: "rowsInGrid p"
  shows "zeroFrom (psize p) (fst st) k \<Longrightarrow> snd st \<le> 1 \<Longrightarrow>
         countSolutions p st k =
           Inr (2 \<le> snd st + length (completions False p (fst st) k), fst st,
                min 2 (snd st + length (completions False p (fst st) k)))"
    and "zeroFrom (psize p) (fst st) k \<Longrightarrow> k < psize p * psize p \<Longrightarrow> snd st \<le> 1 \<Longrightarrow>
         countValues p st k v =
           Inr (2 \<le> snd st + length (candidates False p (fst st) k v), fst st,
                min 2 (snd st + length (candidates False p (fst st) k v)))"
  using rows
proof (induction p st k and p st k v rule: countSolutions_countValues.induct)
  case (1 p st k)
  show ?case
  proof (cases "psize p * psize p \<le> k")
    case True
    then show ?thesis using "1.prems"(2)
      by (subst countSolutions.simps) (simp add: completions_done)
  next
    case False
    then have kl: "k < psize p * psize p" by simp
    have "countSolutions p st k = countValues p st k 1"
      using False by (subst countSolutions.simps) simp
    then show ?thesis
      using "1.IH" [OF False "1.prems"(1) kl "1.prems"(2,3)] completions_candidates [OF kl, of False "fst st"]
      by simp
  qed
next
  case (2 p st k v)
  let ?n = "psize p" and ?g = "fst st" and ?cnt = "snd st"
  let ?r = "k div ?n" and ?c = "k mod ?n"
  let ?g1 = "setCell ?g ?r ?c (int v)"
  note zf = "2.prems"(1) and kl = "2.prems"(2) and c1 = "2.prems"(3) and rows = "2.prems"(4)
  have sh: "gridShape ?n ?g" using zf by (simp add: zeroFrom_def)
  have sh1: "gridShape ?n ?g1" using sh by (rule gridShape_setCell)
  have restore: "setCell ?g1 ?r ?c 0 = ?g" using zf kl by (rule zeroFrom_restore)
  show ?case
  proof (cases "v \<le> ?n")
    case False
    then show ?thesis using c1
      by (subst countValues.simps) (simp add: candidates_done)
  next
    case vl: True
    note cs = candidates_step [OF vl, of False ?g k]
    obtain b where vp: "isValidPlacement ?g ?r ?c (int v) ?n = Inr b"
      using isValidPlacement_total [OF sh kl] by blast
    show ?thesis
    proof (cases b)
      case bf0: False
      then have False: "b = False" by simp
      have st: "\<not> stepOK False p ?g k (int v)" using vp False by (simp add: stepOK_def)
      have "countValues p st k v = countValues p st k (v + 1)"
        using vl vp False by (subst countValues.simps) (simp add: Let_def)
      then show ?thesis
        using "2.IH"(4) [OF vl refl refl vp False zf kl c1 rows] st cs by simp
    next
      case bt0: True
      then have bt: "b = True" by simp
      obtain b2 where ck: "(case getCageForCell (cages p) ?r ?c of
                None \<Rightarrow> Inr True
              | Some cg \<Rightarrow> isCageSatisfied cg ?g1 True) = Inr b2"
        using cage_check_total [OF rows sh1] by blast
      have st: "stepOK False p ?g k (int v) \<longleftrightarrow> b2"
        using vp bt ck by (auto simp: stepOK_def split: option.splits)
      show ?thesis
      proof (cases b2)
        case b2f0: False
        then have False: "b2 = False" by simp
        have "countValues p st k v = countValues p (setCell ?g1 ?r ?c 0, ?cnt) k (v + 1)"
          using vl vp bt ck False by (subst countValues.simps) (simp add: Let_def)
        moreover have "countValues p (setCell ?g1 ?r ?c 0, ?cnt) k (v + 1) =
           Inr (2 \<le> ?cnt + length (candidates False p ?g k (v + 1)), ?g,
                min 2 (?cnt + length (candidates False p ?g k (v + 1))))"
          using "2.IH"(3) [OF vl refl refl vp bt refl ck False] zf kl c1 rows restore by simp
        ultimately show ?thesis using st False cs by simp
      next
        case b2t0: True
        then have b2t: "b2 = True" by simp
        define m1 where "m1 = length (completions False p ?g1 (k + 1))"
        have zf1: "zeroFrom ?n ?g1 (k + 1)" using zf kl by (rule zeroFrom_setCell)
        have rec: "countSolutions p (?g1, ?cnt) (k + 1) =
            Inr (2 \<le> ?cnt + m1, ?g1, min 2 (?cnt + m1))"
          using "2.IH"(1) [OF vl refl refl vp bt refl ck b2t] zf1 c1 rows by (simp add: m1_def)
        have csm: "length (candidates False p ?g k v) = m1 + length (candidates False p ?g k (v + 1))"
          using cs st b2t by (simp add: m1_def)
        show ?thesis
        proof (cases "2 \<le> ?cnt + m1")
          case True
          have "countValues p st k v = Inr (True, setCell ?g1 ?r ?c 0, min 2 (?cnt + m1))"
            using vl vp bt ck b2t rec True by (subst countValues.simps) (simp add: Let_def)
          then show ?thesis using restore True csm by simp
        next
          case False
          then have small: "?cnt + m1 \<le> 1" by simp
          have rec': "countSolutions p (?g1, ?cnt) (k + 1) = Inr (False, ?g1, ?cnt + m1)"
            using rec False by simp
          have "countValues p st k v = countValues p (setCell ?g1 ?r ?c 0, ?cnt + m1) k (v + 1)"
            using vl vp bt ck b2t rec' by (subst countValues.simps) (simp add: Let_def)
          moreover have "countValues p (setCell ?g1 ?r ?c 0, ?cnt + m1) k (v + 1) =
             Inr (2 \<le> ?cnt + m1 + length (candidates False p ?g k (v + 1)), ?g,
                  min 2 (?cnt + m1 + length (candidates False p ?g k (v + 1))))"
            using "2.IH"(2) [OF vl refl refl vp bt refl ck b2t rec' refl refl refl]
              zf kl small rows restore by simp
          ultimately show ?thesis using csm by (simp add: add.assoc)
        qed
      qed
    qed
  qed
qed

subsection \<open>The single-solution search returns the first admitted completion\<close>

lemma solve_correct:
  assumes rows: "rowsInGrid p"
  shows "zeroFrom (psize p) g k \<Longrightarrow>
         backtrack p g k = Inr (firstOf g (completions True p g k))"
    and "zeroFrom (psize p) g k \<Longrightarrow> k < psize p * psize p \<Longrightarrow>
         tryValues p g k v = Inr (firstOf g (candidates True p g k v))"
  using rows
proof (induction p g k and p g k v rule: backtrack_tryValues.induct)
  case (1 p g k)
  show ?case
  proof (cases "psize p * psize p \<le> k")
    case True
    then show ?thesis
      by (subst backtrack.simps) (simp add: completions_done firstOf_def)
  next
    case False
    then have kl: "k < psize p * psize p" by simp
    have "backtrack p g k = tryValues p g k 1"
      using False by (subst backtrack.simps) simp
    then show ?thesis
      using "1.IH" [OF False "1.prems"(1) kl "1.prems"(2)] completions_candidates [OF kl, of True g]
      by simp
  qed
next
  case (2 p g k v)
  let ?n = "psize p"
  let ?r = "k div ?n" and ?c = "k mod ?n"
  let ?g1 = "setCell g ?r ?c (int v)"
  note zf = "2.prems"(1) and kl = "2.prems"(2) and rows = "2.prems"(3)
  have sh: "gridShape ?n g" using zf by (simp add: zeroFrom_def)
  have sh1: "gridShape ?n ?g1" using sh by (rule gridShape_setCell)
  have restore: "setCell ?g1 ?r ?c 0 = g" using zf kl by (rule zeroFrom_restore)
  show ?case
  proof (cases "v \<le> ?n")
    case False
    then show ?thesis
      by (subst tryValues.simps) (simp add: candidates_done firstOf_def)
  next
    case vl: True
    note cs = candidates_step [OF vl, of True g k]
    obtain b where vp: "isValidPlacement g ?r ?c (int v) ?n = Inr b"
      using isValidPlacement_total [OF sh kl] by blast
    show ?thesis
    proof (cases b)
      case bf0: False
      then have bf: "b = False" by simp
      have st: "\<not> stepOK True p g k (int v)" using vp bf by (simp add: stepOK_def)
      have "tryValues p g k v = tryValues p g k (v + 1)"
        using vl vp bf by (subst tryValues.simps) (simp add: Let_def)
      then show ?thesis
        using "2.IH"(5) [OF vl refl refl vp bf zf kl rows] st cs by simp
    next
      case bt0: True
      then have bt: "b = True" by simp
      show ?thesis
      proof (cases "getCageForCell (cages p) ?r ?c")
        case None
        have st: "\<not> stepOK True p g k (int v)" using None by (simp add: stepOK_def)
        have "tryValues p g k v = tryValues p (setCell ?g1 ?r ?c 0) k (v + 1)"
          using vl vp bt None by (subst tryValues.simps) (simp add: Let_def)
        moreover have "tryValues p (setCell ?g1 ?r ?c 0) k (v + 1)
            = Inr (firstOf g (candidates True p g k (v + 1)))"
          using "2.IH"(1) [OF vl refl refl vp bt refl None] zf kl rows restore by simp
        ultimately show ?thesis using st cs by simp
      next
        case (Some cg)
        have "cg \<in> set (cages p)" using Some by (auto simp: getCageForCell_def find_Some_iff)
        then have "\<forall>x \<in> set (cells cg). row x < ?n" using rows by (simp add: rowsInGrid_def)
        then obtain b2 where ck: "isCageSatisfied cg ?g1 True = Inr b2"
          using isCageSatisfied_total [OF sh1, of cg True] by blast
        have st: "stepOK True p g k (int v) \<longleftrightarrow> b2"
          using vp bt ck Some by (simp add: stepOK_def)
        show ?thesis
        proof (cases b2)
          case b2f0: False
          then have b2f: "b2 = False" by simp
          have "tryValues p g k v = tryValues p (setCell ?g1 ?r ?c 0) k (v + 1)"
            using vl vp bt Some ck b2f by (subst tryValues.simps) (simp add: Let_def)
          moreover have "tryValues p (setCell ?g1 ?r ?c 0) k (v + 1)
              = Inr (firstOf g (candidates True p g k (v + 1)))"
            using "2.IH"(4) [OF vl refl refl vp bt refl Some ck b2f] zf kl rows restore by simp
          ultimately show ?thesis using st b2f cs by simp
        next
          case b2t0: True
          then have b2t: "b2 = True" by simp
          have zf1: "zeroFrom ?n ?g1 (k + 1)" using zf kl by (rule zeroFrom_setCell)
          have rec: "backtrack p ?g1 (k + 1) = Inr (firstOf ?g1 (completions True p ?g1 (k + 1)))"
            using "2.IH"(2) [OF vl refl refl vp bt refl Some ck b2t zf1 rows] .
          show ?thesis
          proof (cases "completions True p ?g1 (k + 1)")
            case Nil
            have rec': "backtrack p ?g1 (k + 1) = Inr (False, ?g1)"
              using rec Nil by (simp add: firstOf_def)
            have "tryValues p g k v = tryValues p (setCell ?g1 ?r ?c 0) k (v + 1)"
              using vl vp bt Some ck b2t rec' by (subst tryValues.simps) (simp add: Let_def)
            moreover have "tryValues p (setCell ?g1 ?r ?c 0) k (v + 1)
                = Inr (firstOf g (candidates True p g k (v + 1)))"
              using "2.IH"(3) [OF vl refl refl vp bt refl Some ck b2t rec' refl refl]
                zf kl rows restore by simp
            ultimately show ?thesis using st b2t cs Nil by simp
          next
            case (Cons h hs)
            have rec': "backtrack p ?g1 (k + 1) = Inr (True, h)"
              using rec Cons by (simp add: firstOf_def)
            have "tryValues p g k v = Inr (True, h)"
              using vl vp bt Some ck b2t rec' by (subst tryValues.simps) (simp add: Let_def)
            then show ?thesis using st b2t cs Cons by (simp add: firstOf_def)
          qed
        qed
      qed
    qed
  qed
qed

subsection \<open>Counting the admitted assignments\<close>

lemma admits_iff_completions:
  "admits strict p h \<longleftrightarrow> h \<in> set (completions strict p (createEmptyGrid (psize p)) 0)"
  by (simp add: completions_iff [OF zeroFrom_empty] prefix_zero admits_def okFrom_def)

lemma distinct_concat_map:
  assumes "distinct xs" "\<And>x. x \<in> set xs \<Longrightarrow> distinct (f x)"
    "\<And>x y. x \<in> set xs \<Longrightarrow> y \<in> set xs \<Longrightarrow> x \<noteq> y \<Longrightarrow> set (f x) \<inter> set (f y) = {}"
  shows "distinct (concat (map f xs))"
  using assms by (induction xs) fastforce+

lemma distinct_completions:
  "zeroFrom (psize p) g k \<Longrightarrow> distinct (completions strict p g k)"
proof (induction strict p g k rule: completions.induct)
  case (1 strict p g k)
  let ?n = "psize p"
  let ?f = "\<lambda>v. if stepOK strict p g k (int v)
                 then completions strict p (setCell g (k div ?n) (k mod ?n) (int v)) (k + 1)
                 else []"
  show ?case
  proof (cases "?n * ?n \<le> k")
    case True
    then show ?thesis by (simp add: completions_done)
  next
    case False
    then have kl: "k < ?n * ?n" by simp
    have sh: "gridShape ?n g" using "1.prems" by (simp add: zeroFrom_def)
    have zf1: "zeroFrom ?n (setCell g (k div ?n) (k mod ?n) v) (k + 1)" for v
      using "1.prems" kl by (rule zeroFrom_setCell)
    have d: "distinct (?f v)" if "v \<in> set [1..<?n + 1]" for v
      using "1.IH" [OF False that _ zf1] by simp
    have val: "int v = cellValue ?n h k"
      if "h \<in> set (?f v)" for h v
    proof -
      have m: "stepOK strict p g k (int v)"
        "h \<in> set (completions strict p (setCell g (k div ?n) (k mod ?n) (int v)) (k + 1))"
        using that by (simp_all split: if_splits)
      have e: "prefixGrid ?n h (k + 1) = setCell g (k div ?n) (k mod ?n) (int v)"
        using iffD1 [OF completions_iff [OF zf1] m(2)] by simp
      have "cellValue ?n (prefixGrid ?n h (k + 1)) k = cellValue ?n h k"
        using kl by (simp add: cellValue_prefix)
      then show ?thesis unfolding e using cellValue_setCell_same [OF sh kl] by simp
    qed
    have dj: "set (?f v) \<inter> set (?f w) = {}" if "v \<noteq> w" for v w
    proof (rule ccontr)
      assume "set (?f v) \<inter> set (?f w) \<noteq> {}"
      then obtain h where "h \<in> set (?f v)" "h \<in> set (?f w)" by blast
      then have "int v = int w" using val by metis
      then show False using that by simp
    qed
    have "distinct (concat (map ?f [1..<?n + 1]))"
      by (rule distinct_concat_map) (use d dj in auto)
    then show ?thesis
      using False by (subst completions.simps) simp
  qed
qed

lemma card_admits:
  "finite {h. admits strict p h} \<and>
   card {h. admits strict p h} = length (completions strict p (createEmptyGrid (psize p)) 0)"
proof -
  have "{h. admits strict p h} = set (completions strict p (createEmptyGrid (psize p)) 0)"
    using admits_iff_completions by blast
  then show ?thesis
    using distinct_completions [OF zeroFrom_empty, where p = p and strict = strict]
    by (simp add: distinct_card)
qed

lemma hasUniqueSolution_count:
  assumes "rowsInGrid p"
  shows "countSolutions p (createEmptyGrid (psize p), 0) 0 =
           Inr (2 \<le> card {h. admits False p h}, createEmptyGrid (psize p),
                min 2 (card {h. admits False p h}))"
  using count_correct(1) [OF assms, of "(createEmptyGrid (psize p), 0)" 0] zeroFrom_empty [of "psize p"]
    card_admits [of False p] by simp

lemma solvePuzzle_first:
  assumes "rowsInGrid p"
  shows "solvePuzzle p =
     Inr (case completions True p (createEmptyGrid (psize p)) 0 of [] \<Rightarrow> None | h # _ \<Rightarrow> Some h)"
  using solve_correct(1) [OF assms zeroFrom_empty]
  by (simp add: solvePuzzle_def firstOf_def split: list.splits)

lemma solvePuzzle_cases:
  assumes "rowsInGrid p"
  shows "(solvePuzzle p = Inr None \<and> (\<forall>h. \<not> admits True p h)) \<or>
         (\<exists>h. solvePuzzle p = Inr (Some h) \<and> admits True p h)"
proof (cases "completions True p (createEmptyGrid (psize p)) 0")
  case Nil
  then show ?thesis using solvePuzzle_first [OF assms] by (simp add: admits_iff_completions)
next
  case (Cons h hs)
  then show ?thesis using solvePuzzle_first [OF assms] by (simp add: admits_iff_completions)
qed

lemma uncovered_not_admitted:
  assumes "r < psize p" "c < psize p"
    "\<forall>cg \<in> set (cages p). \<forall>x \<in> set (cells cg). \<not> (row x = r \<and> col x = c)"
  shows "\<not> admits True p h"
proof
  assume a: "admits True p h"
  let ?k = "r * psize p + c"
  have kl: "?k < psize p * psize p" using index_lt [OF assms(1,2)] .
  have dm: "?k div psize p = r" "?k mod psize p = c" using assms(2) by simp_all
  have none: "getCageForCell (cages p) r c = None"
    using assms(3) by (auto simp: getCageForCell_def find_None_iff)
  have "okAt True p h ?k" using a kl by (simp add: admits_def)
  then have "stepOK True p (prefixGrid (psize p) h ?k) ?k (cellValue (psize p) h ?k)"
    unfolding okAt_def by blast
  then have "case getCageForCell (cages p) (?k div psize p) (?k mod psize p) of
        None \<Rightarrow> \<not> True
      | Some cg \<Rightarrow>
          isCageSatisfied cg (setCell (prefixGrid (psize p) h ?k) (?k div psize p) (?k mod psize p)
            (cellValue (psize p) h ?k)) True = Inr True"
    unfolding stepOK_def by blast
  then show False unfolding dm none by simp
qed

subsection \<open>What an admitted assignment satisfies\<close>

lemma admits_value:
  assumes "admits strict p h" "r < psize p" "c < psize p"
  shows "1 \<le> h ! r ! c \<and> h ! r ! c \<le> int (psize p)"
proof -
  let ?k = "r * psize p + c"
  have "okAt strict p h ?k" using assms index_lt [OF assms(2,3)] by (simp add: admits_def)
  then show ?thesis using assms(3) by (simp add: okAt_def cellValue_def)
qed

lemma admits_placement:
  assumes "admits strict p h" "r < psize p" "c < psize p"
  shows "(\<forall>j < psize p. j \<noteq> c \<longrightarrow> prefixGrid (psize p) h (r * psize p + c) ! r ! j \<noteq> h ! r ! c) \<and>
         (\<forall>j < psize p. j \<noteq> r \<longrightarrow> prefixGrid (psize p) h (r * psize p + c) ! j ! c \<noteq> h ! r ! c)"
proof -
  let ?n = "psize p"
  let ?k = "r * ?n + c"
  have dm: "?k div ?n = r" "?k mod ?n = c" using assms(3) by simp_all
  have "okAt strict p h ?k" using assms index_lt [OF assms(2,3)] by (simp add: admits_def)
  then have "stepOK strict p (prefixGrid ?n h ?k) ?k (cellValue ?n h ?k)"
    unfolding okAt_def by blast
  then have "isValidPlacement (prefixGrid ?n h ?k) (?k div ?n) (?k mod ?n) (cellValue ?n h ?k) ?n
      = Inr True"
    unfolding stepOK_def by blast
  then have "isValidPlacement (prefixGrid ?n h ?k) r c (h ! r ! c) ?n = Inr True"
    unfolding dm cellValue_def .
  then show ?thesis
    unfolding isValidPlacement_shape [OF gridShape_prefixGrid assms(2,3)] by simp
qed

lemma admits_row_distinct:
  assumes "admits strict p h" "r < psize p"
  shows "distinct (h ! r)"
proof -
  let ?n = "psize p"
  have len: "length (h ! r) = ?n" using assms by (simp add: admits_def gridShape_def)
  have "h ! r ! i \<noteq> h ! r ! j" if "i < j" "j < ?n" for i j
  proof -
    have i: "i < ?n" using that by simp
    have "prefixGrid ?n h (r * ?n + j) ! r ! i \<noteq> h ! r ! j"
      using admits_placement [OF assms(1,2) that(2)] i that(1) by simp
    moreover have "prefixGrid ?n h (r * ?n + j) ! r ! i = h ! r ! i"
      using that(1) by (simp add: nth_prefixGrid [OF assms(2) i])
    ultimately show ?thesis by simp
  qed
  then have "h ! r ! i \<noteq> h ! r ! j" if "i < ?n" "j < ?n" "i \<noteq> j" for i j
    using that by (cases "i < j") (auto simp: not_less le_less dest: not_sym)
  then show ?thesis by (simp add: distinct_conv_nth len)
qed

lemma admits_col_distinct:
  assumes "admits strict p h" "c < psize p"
  shows "distinct (column h c)"
proof -
  let ?n = "psize p"
  have len: "length h = ?n" using assms by (simp add: admits_def gridShape_def)
  have "h ! i ! c \<noteq> h ! j ! c" if "i < j" "j < ?n" for i j
  proof -
    have i: "i < ?n" using that by simp
    have lt: "i * ?n + c < j * ?n + c"
    proof -
      have "i * ?n + c < (i + 1) * ?n" using assms(2) by simp
      also have "\<dots> \<le> j * ?n" using that(1) by (intro mult_le_mono1) simp
      finally have "i * ?n + c < j * ?n" .
      then show ?thesis by linarith
    qed
    have "prefixGrid ?n h (j * ?n + c) ! i ! c \<noteq> h ! j ! c"
      using admits_placement [OF assms(1) that(2) assms(2)] i that(1) by simp
    moreover have "prefixGrid ?n h (j * ?n + c) ! i ! c = h ! i ! c"
      using lt by (simp add: nth_prefixGrid [OF i assms(2)])
    ultimately show ?thesis by simp
  qed
  then have "h ! i ! c \<noteq> h ! j ! c" if "i < ?n" "j < ?n" "i \<noteq> j" for i j
    using that by (cases "i < j") (auto simp: not_less le_less dest: not_sym)
  then show ?thesis by (simp add: column_def distinct_conv_nth len)
qed

subsection \<open>The exact check\<close>

lemma jsSum_numbers: "foldl (\<lambda>a b. case (a, b) of (Some x, Some y) \<Rightarrow> Some (x + y) | _ \<Rightarrow> None)
      (Some a) (map Some vals) = Some (a + sum_list vals)"
  by (induction vals arbitrary: a) (simp_all add: add.assoc)

lemma jsProduct_numbers: "foldl (\<lambda>a b. case (a, b) of (Some x, Some y) \<Rightarrow> Some (x * y) | _ \<Rightarrow> None)
      (Some a) (map Some vals) = Some (a * prod_list vals)"
  by (induction vals arbitrary: a) (simp_all add: mult.assoc)

lemma jsSum_Some: "jsSum (map Some vals) = Some (sum_list vals)"
  unfolding jsSum_def using jsSum_numbers [of 0 vals] by simp

lemma jsProduct_Some: "jsProduct (map Some vals) = Some (prod_list vals)"
  unfolding jsProduct_def using jsProduct_numbers [of 1 vals] by simp

lemma length2_iff: "length xs = 2 \<longleftrightarrow> (\<exists>a b. xs = [a, b])"
  by (cases xs; cases "tl xs"; cases "tl (tl xs)") auto

lemma length1_iff: "length xs = Suc 0 \<longleftrightarrow> (\<exists>a. xs = [a])"
  by (cases xs) auto

lemma quotient_eq:
  "s \<noteq> 0 \<Longrightarrow> (of_int l :: rat) / of_int s = of_int t \<longleftrightarrow> l = t * s"
proof -
  assume s: "s \<noteq> 0"
  then have "(of_int l :: rat) / of_int s = of_int t \<longleftrightarrow> (of_int l :: rat) = of_int t * of_int s"
    by (simp add: divide_eq_eq)
  also have "\<dots> \<longleftrightarrow> (of_int l :: rat) = of_int (t * s)" by simp
  also have "\<dots> \<longleftrightarrow> l = t * s" by (simp only: of_int_eq_iff)
  finally show ?thesis .
qed

lemma isFullCageValid_exact:
  "isFullCageValid cg (map Some vals) \<longleftrightarrow> exactConstraint (clue cg) vals"
proof (cases "operation (clue cg)")
  case Add
  then show ?thesis by (simp add: isFullCageValid_def exactConstraint_def jsSum_Some)
next
  case Sub
  then show ?thesis
    by (auto simp: isFullCageValid_def exactConstraint_def length2_iff)
next
  case Mul
  then show ?thesis
    by (simp add: isFullCageValid_def exactConstraint_def jsProduct_Some)
next
  case Div
  then show ?thesis
    by (auto simp: isFullCageValid_def exactConstraint_def length2_iff Let_def quotient_eq)
next
  case NoOp
  then show ?thesis
    by (auto simp: isFullCageValid_def exactConstraint_def length1_iff)
qed

subsection \<open>Cages of an admitted assignment\<close>

lemma getCageForCell_disjoint:
  assumes "cagesDisjoint p" "cg \<in> set (cages p)" "x \<in> set (cells cg)"
  shows "getCageForCell (cages p) (row x) (col x) = Some cg"
proof -
  let ?P = "\<lambda>cg. \<exists>y \<in> set (cells cg). row y = row x \<and> col y = col x"
  have "?P cg" using assms(3) by blast
  then have "find ?P (cages p) \<noteq> None" using assms(2) by (auto simp: find_None_iff)
  then obtain cg' where f: "find ?P (cages p) = Some cg'" by blast
  then have "cg' \<in> set (cages p)" "?P cg'" by (auto simp: find_Some_iff)
  then have "cg' = cg" using assms by (auto simp: cagesDisjoint_def)
  then show ?thesis using f by (simp add: getCageForCell_def)
qed

lemma admits_cage:
  assumes a: "admits True p h" and ne: "cells cg \<noteq> []"
    and ing: "\<forall>x \<in> set (cells cg). row x < psize p \<and> col x < psize p"
    and first: "\<forall>x \<in> set (cells cg). getCageForCell (cages p) (row x) (col x) = Some cg"
  shows "exactConstraint (clue cg) (cageValues cg h)"
proof -
  let ?n = "psize p"
  define idx where "idx = (\<lambda>x::cell. row x * ?n + col x)"
  define K where "K = Max (idx ` set (cells cg))"
  have fin: "finite (idx ` set (cells cg))" "idx ` set (cells cg) \<noteq> {}" using ne by simp_all
  have "K \<in> idx ` set (cells cg)" unfolding K_def using fin by (rule Max_in)
  then obtain xs where xs: "xs \<in> set (cells cg)" "idx xs = K" by auto
  have le: "idx x \<le> K" if "x \<in> set (cells cg)" for x
    unfolding K_def using fin(1) that by (intro Max_ge) simp_all
  have xr: "row xs < ?n" "col xs < ?n" using ing xs(1) by simp_all
  have kl: "K < ?n * ?n" using index_lt [OF xr] xs(2) by (simp add: idx_def)
  have dm: "K div ?n = row xs" "K mod ?n = col xs"
    using xr(2) xs(2) [symmetric] by (simp_all add: idx_def)
  have "okAt True p h K" using a kl by (simp add: admits_def)
  then have "stepOK True p (prefixGrid ?n h K) K (cellValue ?n h K)"
    unfolding okAt_def by blast
  then have "case getCageForCell (cages p) (K div ?n) (K mod ?n) of
        None \<Rightarrow> \<not> True
      | Some cg \<Rightarrow>
          isCageSatisfied cg (setCell (prefixGrid ?n h K) (K div ?n) (K mod ?n) (cellValue ?n h K))
            True = Inr True"
    unfolding stepOK_def by blast
  moreover have "getCageForCell (cages p) (K div ?n) (K mod ?n) = Some cg"
    unfolding dm using first xs(1) by simp
  ultimately have sat: "isCageSatisfied cg (prefixGrid ?n h (K + 1)) True = Inr True"
    using prefix_step [OF kl, of h] by simp
  have rows: "\<forall>x \<in> set (cells cg). row x < ?n" using ing by simp
  have "map (\<lambda>x. if col x < ?n then Some (prefixGrid ?n h (K + 1) ! row x ! col x) else None) (cells cg)
        = map Some (cageValues cg h)"
    unfolding cageValues_def map_map
  proof (rule map_cong [OF refl])
    fix x assume x: "x \<in> set (cells cg)"
    then have xr: "row x < ?n" "col x < ?n" using ing by simp_all
    have "row x * ?n + col x < K + 1" using le [OF x] by (simp add: idx_def)
    then show "(if col x < ?n then Some (prefixGrid ?n h (K + 1) ! row x ! col x) else None)
         = (Some \<circ> (\<lambda>x. h ! row x ! col x)) x"
      using xr by (simp add: nth_prefixGrid)
  qed
  then have rd: "readCells (prefixGrid ?n h (K + 1)) (cells cg) = Inr (map Some (cageValues cg h))"
    using readCells_shape [OF gridShape_prefixGrid rows, of h "K + 1"] by simp
  have nz: "Some 0 \<notin> set (map Some (cageValues cg h))"
  proof
    assume "Some 0 \<in> set (map Some (cageValues cg h))"
    then obtain x where x: "x \<in> set (cells cg)" "h ! row x ! col x = 0"
      by (auto simp: cageValues_def)
    then show False using admits_value [OF a, of "row x" "col x"] ing by auto
  qed
  then have fl: "filter (\<lambda>v. v \<noteq> Some 0) (map Some (cageValues cg h)) = map Some (cageValues cg h)"
    by (intro filter_True) auto
  have "isCageSatisfied cg (prefixGrid ?n h (K + 1)) True
             = Inr (isFullCageValid cg (map Some (cageValues cg h)))"
    unfolding isCageSatisfied_def rd using nz fl by (simp add: Let_def)
  then show ?thesis using sat by (simp add: isFullCageValid_exact)
qed

lemma admits_all_cages:
  assumes "admits True p h" "cellsInGrid p" "cagesDisjoint p" "cg \<in> set (cages p)" "cells cg \<noteq> []"
  shows "exactConstraint (clue cg) (cageValues cg h)"
proof (rule admits_cage [OF assms(1,5)])
  show "\<forall>x \<in> set (cells cg). row x < psize p \<and> col x < psize p"
    using assms(2,4) by (simp add: cellsInGrid_def)
  show "\<forall>x \<in> set (cells cg). getCageForCell (cages p) (row x) (col x) = Some cg"
    using getCageForCell_disjoint [OF assms(3,4)] by blast
qed

subsection \<open>The claims about the solver\<close>

lemma readCells_bad_row:
  "\<exists>x \<in> set cs. length g \<le> row x \<Longrightarrow> readCells g cs = Inl TypeError"
proof (induction cs)
  case Nil
  then show ?case by simp
next
  case (Cons c cs)
  show ?case
  proof (cases "row c < length g")
    case False
    then show ?thesis by (simp add: readCell_def)
  next
    case True
    then have "\<exists>x \<in> set cs. length g \<le> row x" using Cons.prems by auto
    then show ?thesis using Cons.IH True by (simp add: readCell_def)
  qed
qed

lemma fixtures_rows:
  "rowsInGrid singleCellPuzzle2" "rowsInGrid twoCagePuzzle" "rowsInGrid uncoveredPuzzle"
  "rowsInGrid overlapPuzzle" "rowsInGrid noCagePuzzle"
  by (simp_all add: rowsInGrid_def singleCellPuzzle2_def twoCagePuzzle_def uncoveredPuzzle_def
      overlapPuzzle_def noCagePuzzle_def mkPuzzle_def mkCage_def cellAt_def)

lemma unique_singleCellPuzzle2: "hasUniqueSolution singleCellPuzzle2 = Inr True"
  by code_simp

lemma unique_twoCagePuzzle: "hasUniqueSolution twoCagePuzzle = Inr False"
  by code_simp

lemma unique_uncoveredPuzzle: "hasUniqueSolution uncoveredPuzzle = Inr True"
  by code_simp

lemma solve_singleCellPuzzle2: "solvePuzzle singleCellPuzzle2 = Inr (Some [[1, 2], [2, 1]])"
  by code_simp

lemma solve_badRowPuzzle: "solvePuzzle badRowPuzzle = Inl TypeError"
  by code_simp

lemma solve_overlapPuzzle: "solvePuzzle overlapPuzzle = Inr (Some [[1]])"
  by code_simp

lemma badRow_not_admitted: "\<not> admits strict badRowPuzzle h"
proof
  assume a: "admits strict badRowPuzzle h"
  let ?p = badRowPuzzle
  have n: "psize ?p = 2" by (simp add: badRowPuzzle_def mkPuzzle_def)
  let ?cg = "mkCage 0 [cellAt 0 0, cellAt 2 0] 3 Add"
  have cg: "getCageForCell (cages ?p) 0 0 = Some ?cg"
    by (simp add: getCageForCell_def badRowPuzzle_def mkPuzzle_def mkCage_def cellAt_def)
  have "okAt strict ?p h 0" using a by (simp add: admits_def n)
  then have "stepOK strict ?p (prefixGrid 2 h 0) 0 (cellValue 2 h 0)"
    by (simp add: okAt_def n)
  then have sat: "isCageSatisfied ?cg (setCell (prefixGrid 2 h 0) 0 0 (cellValue 2 h 0)) True = Inr True"
    by (simp add: stepOK_def n cg)
  have "length (setCell (prefixGrid 2 h 0) 0 0 (cellValue 2 h 0)) = 2"
    using gridShape_setCell [OF gridShape_prefixGrid, of 2 h 0 0 0] by (simp add: gridShape_def)
  then have "readCells (setCell (prefixGrid 2 h 0) 0 0 (cellValue 2 h 0)) (cells ?cg) = Inl TypeError"
    by (intro readCells_bad_row) (simp add: mkCage_def cellAt_def)
  then show False using sat by (simp add: isCageSatisfied_def)
qed

text \<open>
  Claim C1, as stated for every puzzle, fails where a cage lists a cell whose
  row is not a row of the grid: reading that cell throws inside the timer
  callback and the promise never resolves, although no full assignment
  passes the checks of the search, so that the claim promises \<open>false\<close>.
\<close>

theorem hasUniqueSolution_throws:
  "hasUniqueSolution badRowPuzzle = Inl TypeError \<and> (\<forall>h. \<not> admits False badRowPuzzle h)"
proof -
  have "hasUniqueSolution badRowPuzzle = Inl TypeError" by code_simp
  then show ?thesis using badRow_not_admitted by simp
qed

text \<open>
  Claim C1, amended.  For every puzzle all of whose cage cells name a row of
  the grid, the full assignments that pass the row, column and cage checks of
  the search form a finite set; \<open>hasUniqueSolution\<close> resolves to \<open>true\<close> when
  that set has exactly one element and to \<open>false\<close> when it has none or at least
  two; the counter of the search ends at the smaller of 2 and the size of the
  set, the search reporting "stop" exactly when it has reached 2, with the
  grid emptied again.  On the 2 x 2 puzzle with two cages each clued \<open>+3\<close> it
  resolves to \<open>false\<close>.
\<close>

theorem hasUniqueSolution_unique:
  assumes "rowsInGrid p"
  shows "finite {h. admits False p h} \<and>
         hasUniqueSolution p = Inr (card {h. admits False p h} = 1) \<and>
         countSolutions p (createEmptyGrid (psize p), 0) 0 =
           Inr (2 \<le> card {h. admits False p h}, createEmptyGrid (psize p),
                min 2 (card {h. admits False p h})) \<and>
         hasUniqueSolution twoCagePuzzle = Inr False"
proof -
  note c = hasUniqueSolution_count [OF assms]
  have "min 2 (card {h. admits False p h}) = 1 \<longleftrightarrow> card {h. admits False p h} = 1" by auto
  then have "hasUniqueSolution p = Inr (card {h. admits False p h} = 1)"
    by (simp add: hasUniqueSolution_def c)
  then show ?thesis using c card_admits [of False p] unique_twoCagePuzzle by simp
qed

theorem hasUniqueSolution_unique_witness:
  "rowsInGrid singleCellPuzzle2 \<and> hasUniqueSolution singleCellPuzzle2 = Inr True \<and>
   card {h. admits False singleCellPuzzle2 h} = 1 \<and>
   rowsInGrid twoCagePuzzle \<and> hasUniqueSolution twoCagePuzzle = Inr False \<and>
   card {h. admits False twoCagePuzzle h} \<noteq> 1"
  using hasUniqueSolution_unique [OF fixtures_rows(1)] hasUniqueSolution_unique [OF fixtures_rows(2)]
    fixtures_rows(1,2) unique_singleCellPuzzle2
  by simp

text \<open>
  Claim C9, as stated, fails on a puzzle that leaves a cell uncovered while
  an earlier cell has a cage naming a row outside the grid: \<open>solvePuzzle\<close>
  throws instead of returning \<open>null\<close>.
\<close>

theorem solvePuzzle_uncovered_throws:
  "cellAt 1 1 \<notin> cagesUnion (cages badRowPuzzle) \<and> solvePuzzle badRowPuzzle = Inl TypeError"
  using solve_badRowPuzzle
  by (simp add: cagesUnion_def badRowPuzzle_def mkPuzzle_def mkCage_def cellAt_def)

text \<open>
  Claim C9, amended.  For every puzzle all of whose cage cells name a row of
  the grid and whose cage list leaves at least one cell of the grid uncovered,
  \<open>solvePuzzle\<close> returns \<open>null\<close>.  (The witness is a 2 x 2 puzzle with one
  uncovered cell, forced to one value by its row and column: \<open>solvePuzzle\<close>
  returns \<open>null\<close> and \<open>hasUniqueSolution\<close> resolves to \<open>true\<close>.)
\<close>

theorem solvePuzzle_uncovered_null:
  assumes "rowsInGrid p" "r < psize p" "c < psize p"
    "\<lparr>row = r, col = c\<rparr> \<notin> cagesUnion (cages p)"
  shows "solvePuzzle p = Inr None"
proof -
  have "\<forall>cg \<in> set (cages p). \<forall>x \<in> set (cells cg). \<not> (row x = r \<and> col x = c)"
  proof (intro ballI notI)
    fix cg x assume cg: "cg \<in> set (cages p)" and x: "x \<in> set (cells cg)"
      and e: "row x = r \<and> col x = c"
    have "x = \<lparr>row = r, col = c\<rparr>" using e cell_eta [of x] by simp
    then show False using assms(4) cg x by (auto simp: cagesUnion_def)
  qed
  then have "\<not> admits True p h" for h by (rule uncovered_not_admitted [OF assms(2,3)])
  then show ?thesis using solvePuzzle_cases [OF assms(1)] by blast
qed

theorem solvePuzzle_uncovered_null_witness:
  "rowsInGrid uncoveredPuzzle \<and> 1 < psize uncoveredPuzzle \<and>
   \<lparr>row = 1, col = 1\<rparr> \<notin> cagesUnion (cages uncoveredPuzzle) \<and>
   solvePuzzle uncoveredPuzzle = Inr None \<and> hasUniqueSolution uncoveredPuzzle = Inr True"
proof -
  have a: "1 < psize uncoveredPuzzle" "\<lparr>row = 1, col = 1\<rparr> \<notin> cagesUnion (cages uncoveredPuzzle)"
    by (simp_all add: cagesUnion_def uncoveredPuzzle_def mkPuzzle_def mkCage_def cellAt_def)
  show ?thesis
    using solvePuzzle_uncovered_null [OF fixtures_rows(3) a(1) a(1) a(2)] a fixtures_rows(3)
      unique_uncoveredPuzzle
    by simp
qed

text \<open>
  Claim C7, as stated for every puzzle, fails twice on malformed cage lists.
  With two cages on one cell only the first is ever checked: \<open>solvePuzzle\<close>
  returns \<open>[[1]]\<close> although the second cage, clued \<open>2\<close>, is not satisfied.
  With a cage naming a row outside the grid, \<open>solvePuzzle\<close> throws.
\<close>

theorem solvePuzzle_unsound_malformed:
  "solvePuzzle overlapPuzzle = Inr (Some [[1]]) \<and>
   \<not> exactConstraint (clue (cages overlapPuzzle ! 1)) (cageValues (cages overlapPuzzle ! 1) [[1]]) \<and>
   solvePuzzle badRowPuzzle = Inl TypeError"
  using solve_overlapPuzzle solve_badRowPuzzle
  by (simp add: exactConstraint_def cageValues_def overlapPuzzle_def mkPuzzle_def mkCage_def
      cellAt_def)

text \<open>
  Claim C7, amended.  For every puzzle all of whose cage cells name a row of
  the grid, \<open>solvePuzzle\<close> does not throw, and it returns \<open>null\<close> exactly
  when no full assignment passes the checks of the search.  Otherwise it
  returns a full assignment that passes them: an \<open>N x N\<close> grid in which every
  cell holds a value in \<open>1..N\<close>, no row and no column repeats a value and,
  provided every cage cell lies in the grid and no cell belongs to two cages,
  every non-empty cage satisfies its exact arithmetic constraint.
\<close>

theorem solvePuzzle_sound:
  assumes "rowsInGrid p"
  shows "(solvePuzzle p = Inr None \<and> (\<forall>h. \<not> admits True p h)) \<or>
         (\<exists>g. solvePuzzle p = Inr (Some g) \<and> admits True p g \<and> gridShape (psize p) g \<and>
              (\<forall>r < psize p. \<forall>c < psize p. 1 \<le> g ! r ! c \<and> g ! r ! c \<le> int (psize p)) \<and>
              (\<forall>r < psize p. distinct (g ! r)) \<and>
              (\<forall>c < psize p. distinct (column g c)) \<and>
              (cellsInGrid p \<and> cagesDisjoint p \<longrightarrow>
                 (\<forall>cg \<in> set (cages p). cells cg \<noteq> [] \<longrightarrow>
                    exactConstraint (clue cg) (cageValues cg g))))"
proof -
  from solvePuzzle_cases [OF assms]
  consider "solvePuzzle p = Inr None \<and> (\<forall>h. \<not> admits True p h)"
    | g where "solvePuzzle p = Inr (Some g)" "admits True p g"
    by blast
  then show ?thesis
  proof cases
    case 1
    then show ?thesis by blast
  next
    case 2
    have "gridShape (psize p) g" using 2(2) by (simp add: admits_def)
    moreover have "\<forall>r < psize p. \<forall>c < psize p. 1 \<le> g ! r ! c \<and> g ! r ! c \<le> int (psize p)"
      using admits_value [OF 2(2)] by blast
    moreover have "\<forall>r < psize p. distinct (g ! r)" using admits_row_distinct [OF 2(2)] by blast
    moreover have "\<forall>c < psize p. distinct (column g c)" using admits_col_distinct [OF 2(2)] by blast
    moreover have "cellsInGrid p \<and> cagesDisjoint p \<longrightarrow>
                 (\<forall>cg \<in> set (cages p). cells cg \<noteq> [] \<longrightarrow>
                    exactConstraint (clue cg) (cageValues cg g))"
      using admits_all_cages [OF 2(2)] by blast
    ultimately show ?thesis using 2 by blast
  qed
qed

lemma fixture_wellformed:
  "cellsInGrid singleCellPuzzle2" "cagesDisjoint singleCellPuzzle2"
  by (simp_all add: cellsInGrid_def cagesDisjoint_def singleCellPuzzle2_def mkPuzzle_def
      mkCage_def cellAt_def)

theorem solvePuzzle_sound_witness:
  "rowsInGrid singleCellPuzzle2 \<and> cellsInGrid singleCellPuzzle2 \<and> cagesDisjoint singleCellPuzzle2 \<and>
   solvePuzzle singleCellPuzzle2 = Inr (Some [[1, 2], [2, 1]]) \<and>
   admits True singleCellPuzzle2 [[1, 2], [2, 1]] \<and>
   distinct ([[1, 2], [2, 1]] ! 0 :: int list) \<and>
   list_all (\<lambda>cg. exactConstraint (clue cg) (cageValues cg [[1, 2], [2, 1]]))
     (cages singleCellPuzzle2)"
proof -
  have ne: "\<forall>cg \<in> set (cages singleCellPuzzle2). cells cg \<noteq> []"
    by (simp add: singleCellPuzzle2_def mkPuzzle_def mkCage_def)
  have "psize singleCellPuzzle2 = 2" by (simp add: singleCellPuzzle2_def mkPuzzle_def)
  then show ?thesis
    using solvePuzzle_sound [OF fixtures_rows(1)] solve_singleCellPuzzle2 fixtures_rows(1)
      fixture_wellformed ne
    by (auto simp: list_all_iff)
qed

section \<open>Generation is a function of the seed\<close>

lemma generatePuzzleId_rng:
  "snd (generatePuzzleId d n t rng) = snd (nextInt 1000 9999 rng)"
  by (simp add: generatePuzzleId_def split: prod.splits)

lemma admits_cong:
  assumes "psize q = psize p" "cages q = cages p"
  shows "admits strict q h = admits strict p h"
  unfolding admits_def okAt_def stepOK_def assms ..

lemma hasUniqueSolution_cages:
  assumes "rowsInGrid p" "psize q = psize p" "cages q = cages p"
  shows "hasUniqueSolution q = hasUniqueSolution p \<and> (\<exists>b. hasUniqueSolution p = Inr b)"
proof -
  have rq: "rowsInGrid q" using assms by (simp add: rowsInGrid_def)
  have "{h. admits False q h} = {h. admits False p h}"
    using admits_cong [OF assms(2,3)] by simp
  then show ?thesis
    using hasUniqueSolution_count [OF assms(1)] hasUniqueSolution_count [OF rq] assms(2)
    by (simp add: hasUniqueSolution_def)
qed

lemma generateLoop_content:
  "content (generateLoop left config c1 r1 rng) = content (generateLoop left config c2 r2 rng) \<and>
   (content (generateLoop left config c1 r1 rng) = Inl GenerationFailed \<or>
    (\<exists>x. content (generateLoop left config c1 r1 rng) = Inr x))"
proof (induction left arbitrary: r1 r2 rng)
  case 0
  show ?case by (simp add: content_def)
next
  case (Suc left)
  define n where "n = cfg_size config"
  define d where "d = cfg_difficulty config"
  from pipeline_cells [of n rng d]
  obtain sol rng1 cgs rng2 cgs' where r:
    "generateLatinSquare n rng = (sol, rng1)"
    "generateCages n rng1
        \<lparr>minSize_opt = Some (minCageSize (getDifficultyPreset d)),
         maxSize_opt = Some (maxCageSize (getDifficultyPreset d)),
         allowSingleCell_opt = Some (singleCellRate (getDifficultyPreset d) > 0)\<rparr> = Inr (cgs, rng2)"
    "assignClues cgs sol (operations (getDifficultyPreset d)) = Inr cgs'"
    "\<forall>cg \<in> set cgs'. \<forall>c \<in> set (cells cg). inGrid n c"
    by blast
  define P where "P = (\<lambda>(c::nat \<Rightarrow> nat) (rd::nat). \<lparr>puzzle_id = fst (generatePuzzleId d n (c rd) rng2), psize = n,
       difficulty = d, cages = cgs', solution = sol, puzzle_seed = cfg_seed config\<rparr>)"
  define rng3 where "rng3 = snd (nextInt 1000 9999 rng2)"
  have step: "generateLoop (Suc left) config c rd rng =
     (if n \<le> 7
      then (case hasUniqueSolution (P c rd) of
              Inl e \<Rightarrow> Inl e
            | Inr hasUnique \<Rightarrow>
                if hasUnique then Inr (P c rd) else generateLoop left config c (rd + 1) rng3)
      else Inr (P c rd))" for c rd
  proof -
    obtain pid where pid: "generatePuzzleId d n (c rd) rng2 = (pid, rng3)"
      using generatePuzzleId_rng [of d n "c rd" rng2] unfolding rng3_def
      by (metis prod.collapse)
    have Pe: "P c rd = \<lparr>puzzle_id = pid, psize = n, difficulty = d, cages = cgs', solution = sol,
        puzzle_seed = cfg_seed config\<rparr>"
      by (simp add: P_def pid)
    show ?thesis
      unfolding Pe
      using r(1,2,3) pid
      by (simp add: n_def [symmetric] d_def [symmetric] Let_def)
  qed
  have rows: "rowsInGrid (P c1 r1)" using r(4) by (simp add: rowsInGrid_def P_def inGrid_def)
  from hasUniqueSolution_cages [OF rows, of "P c2 r2"]
  obtain b where hb: "hasUniqueSolution (P c1 r1) = Inr b" "hasUniqueSolution (P c2 r2) = Inr b"
    by (auto simp: P_def)
  have pc: "content (Inr (P c rd)) = Inr (sol, cgs')" for c rd
    by (simp add: content_def P_def)
  show ?case
  proof (cases "n \<le> 7 \<and> \<not> b")
    case True
    have e1: "generateLoop (Suc left) config c1 r1 rng = generateLoop left config c1 (r1 + 1) rng3"
      unfolding step using True hb(1) by simp
    have e2: "generateLoop (Suc left) config c2 r2 rng = generateLoop left config c2 (r2 + 1) rng3"
      unfolding step using True hb(2) by simp
    show ?thesis unfolding e1 e2 by (rule Suc.IH)
  next
    case False
    then show ?thesis unfolding step using hb pc by auto
  qed
qed

text \<open>
  Claim C4.  For every size, difficulty preset and seed text, the solution
  grid and the cage list (the cages in order, each with its cells in order and
  its clue) that the generation pipeline returns are fixed by the size, the
  preset and the seed.  Whatever the clock reads, every run of
  \<open>generatePuzzleSync\<close> returns a puzzle with that same grid and that same cage
  list; and every run of \<open>generatePuzzle\<close>, with its uniqueness check and its
  retries, has the same outcome: either it fails after the last attempt, or it
  returns a puzzle with one and the same grid and cage list.
\<close>

theorem generation_deterministic:
  "(\<exists>sol cgs. \<forall>clock. \<exists>p.
      generatePuzzleSync \<lparr>cfg_size = n, cfg_difficulty = d, cfg_seed = Some s\<rparr> clock = Inr p \<and>
      solution p = sol \<and> cages p = cgs) \<and>
   (\<exists>out. (out = Inl GenerationFailed \<or> (\<exists>x. out = Inr x)) \<and>
      (\<forall>clock. content (generatePuzzle \<lparr>cfg_size = n, cfg_difficulty = d, cfg_seed = Some s\<rparr> clock)
          = out))"
proof -
  from pipeline_cells [of n "createRNG (SeedString s)" d]
  obtain sol rng1 cgs rng2 cgs' where r:
    "generateLatinSquare n (createRNG (SeedString s)) = (sol, rng1)"
    "generateCages n rng1
        \<lparr>minSize_opt = Some (minCageSize (getDifficultyPreset d)),
         maxSize_opt = Some (maxCageSize (getDifficultyPreset d)),
         allowSingleCell_opt = Some (singleCellRate (getDifficultyPreset d) > 0)\<rparr> = Inr (cgs, rng2)"
    "assignClues cgs sol (operations (getDifficultyPreset d)) = Inr cgs'"
    by blast
  have "\<exists>p. generatePuzzleSync \<lparr>cfg_size = n, cfg_difficulty = d, cfg_seed = Some s\<rparr> clock = Inr p \<and>
      solution p = sol \<and> cages p = cgs'" for clock
    using r by (simp add: generatePuzzleSync_def Let_def)
  then have sync: "\<exists>sol cgs. \<forall>clock. \<exists>p.
      generatePuzzleSync \<lparr>cfg_size = n, cfg_difficulty = d, cfg_seed = Some s\<rparr> clock = Inr p \<and>
      solution p = sol \<and> cages p = cgs" by blast
  define cfg where "cfg = \<lparr>cfg_size = n, cfg_difficulty = d, cfg_seed = Some s\<rparr>"
  define out where "out = content (generateLoop 10 cfg (\<lambda>k. 0) 0 (createRNG (SeedString s)))"
  have gp: "generatePuzzle cfg clock = generateLoop 10 cfg clock 0 (createRNG (SeedString s))" for clock
    by (simp add: generatePuzzle_def cfg_def)
  have "content (generatePuzzle cfg clock) = out" for clock
    unfolding gp out_def
    using generateLoop_content [of 10 cfg clock 0 "createRNG (SeedString s)" "\<lambda>k. 0" 0] by simp
  moreover have "out = Inl GenerationFailed \<or> (\<exists>x. out = Inr x)"
    unfolding out_def
    using generateLoop_content [of 10 cfg "\<lambda>k. 0" 0 "createRNG (SeedString s)" "\<lambda>k. 0" 0] by blast
  ultimately have "\<exists>out. (out = Inl GenerationFailed \<or> (\<exists>x. out = Inr x)) \<and>
      (\<forall>clock. content (generatePuzzle cfg clock) = out)" by blast
  then show ?thesis using sync unfolding cfg_def by blast
qed

theorem generation_deterministic_witness:
  "(\<exists>sol cgs. \<forall>clock. \<exists>p.
      generatePuzzleSync \<lparr>cfg_size = 4, cfg_difficulty = Beginner, cfg_seed = Some [100, 49]\<rparr> clock
        = Inr p \<and>
      solution p = sol \<and> cages p = cgs) \<and>
   (\<exists>out. (out = Inl GenerationFailed \<or> (\<exists>x. out = Inr x)) \<and>
      (\<forall>clock. content (generatePuzzle \<lparr>cfg_size = 4, cfg_difficulty = Beginner, cfg_seed = Some [100, 49]\<rparr> clock)
          = out))"
  using generation_deterministic [of 4 Beginner "[100, 49]"] by simp

section \<open>The move validator\<close>

lemma writeAt_read:
  "(if k < length (writeAt rw c v) then writeAt rw c v ! k else None)
   = (if k = c then Some v else if k < length rw then rw ! k else None)"
proof (cases "c < length rw")
  case True
  then show ?thesis by (auto simp: writeAt_def nth_list_update)
next
  case False
  then have len: "length (writeAt rw c v) = c + 1" by (simp add: writeAt_def)
  show ?thesis
  proof (cases "k < length rw")
    case True
    then show ?thesis using False len by (auto simp: writeAt_def nth_append)
  next
    case kf: False
    show ?thesis
    proof (cases "k = c")
      case True
      then show ?thesis using False by (simp add: writeAt_def nth_append)
    next
      case kc: False
      show ?thesis
      proof (cases "k < c")
        case True
        then have "writeAt rw c v ! k = None"
          using False kf by (simp add: writeAt_def nth_append)
        then show ?thesis using kf kc by simp
      next
        case False
        then show ?thesis using kf kc len by simp
      qed
    qed
  qed
qed

lemma copy_write:
  assumes "copyRows h g = Inr (h1, t)" "storeWrite h1 t (row cl) (col cl) v = Inr h2"
  shows "list_all (\<lambda>a. a < length h) g \<and> row cl < length g \<and>
         t = tempGridOf h g \<and> h2 = tempStore h g cl v"
proof -
  have a: "list_all (\<lambda>a. a < length h) g" "h1 = h @ map (\<lambda>a. h ! a) g" "t = tempGridOf h g"
    using assms(1) by (auto simp: copyRows_def tempGridOf_def split: if_splits)
  have lt: "length t = length g" by (simp add: a(3) tempGridOf_def)
  have r: "row cl < length g" using assms(2) lt by (auto simp: storeWrite_def split: if_splits)
  then have tr: "t ! row cl = length h + row cl" by (simp add: a(3) tempGridOf_def)
  have ga: "g ! row cl < length h" using a(1) r by (simp add: list_all_length)
  have "h1 ! (length h + row cl) = h ! (g ! row cl)" using r by (simp add: a(2) nth_append)
  then have "h2 = tempStore h g cl v"
    using assms(2) r lt tr by (auto simp: storeWrite_def tempStore_def a(2) split: if_splits)
  then show ?thesis using a r by simp
qed

lemma take_tempStore: "take (length h) (tempStore h g cl v) = h"
  by (simp add: tempStore_def)

lemma tempStore_read:
  assumes "list_all (\<lambda>a. a < length h) g" "row cl < length g"
  shows "storeRead (tempStore h g cl v) (tempGridOf h g) (row x) (col x)
         = (if row x < length g then Inr (afterMove h g cl v x) else Inl TypeError)"
proof (cases "row x < length g")
  case False
  then show ?thesis by (simp add: storeRead_def tempGridOf_def)
next
  case True
  have len: "length (tempStore h g cl v) = length h + length g" by (simp add: tempStore_def)
  have tx: "tempGridOf h g ! row x = length h + row x" using True by (simp add: tempGridOf_def)
  have gx: "g ! row x < length h" using assms(1) True by (simp add: list_all_length)
  have orig: "storeRead h g (row x) (col x)
      = Inr (if col x < length (h ! (g ! row x)) then h ! (g ! row x) ! col x else None)"
    using True gx by (simp add: storeRead_def)
  have rd: "storeRead (tempStore h g cl v) (tempGridOf h g) (row x) (col x)
      = Inr (if col x < length (tempStore h g cl v ! (length h + row x))
             then tempStore h g cl v ! (length h + row x) ! col x else None)"
    using True len tx by (simp add: storeRead_def tempGridOf_def)
  show ?thesis
  proof (cases "row x = row cl")
    case same: True
    have eq: "tempStore h g cl v ! (length h + row x) = writeAt (h ! (g ! row cl)) (col cl) v"
      using True same by (simp add: tempStore_def)
    have "storeRead (tempStore h g cl v) (tempGridOf h g) (row x) (col x)
        = Inr (if col x = col cl then Some v
               else if col x < length (h ! (g ! row cl)) then h ! (g ! row cl) ! col x else None)"
      unfolding rd eq writeAt_read ..
    moreover have "afterMove h g cl v x
        = (if col x = col cl then Some v
           else if col x < length (h ! (g ! row cl)) then h ! (g ! row cl) ! col x else None)"
      using same orig by (simp add: afterMove_def)
    ultimately show ?thesis using True by simp
  next
    case diff: False
    have "tempStore h g cl v ! (length h + row x) = h ! (g ! row x)"
      using True diff by (simp add: tempStore_def nth_append)
    then show ?thesis
      unfolding rd using True diff orig by (simp add: afterMove_def)
  qed
qed

lemma everyFilled_temp:
  assumes "list_all (\<lambda>a. a < length h) g" "row cl < length g"
    "everyFilled (tempStore h g cl v) (tempGridOf h g) cs = Inr b"
  shows "b = list_all (\<lambda>x. afterMove h g cl v x \<noteq> Some 0) cs \<and>
         (b \<longrightarrow> (\<forall>x \<in> set cs. row x < length g))"
  using assms(3)
proof (induction cs)
  case Nil
  then show ?case by auto
next
  case (Cons x cs)
  note rd = tempStore_read [OF assms(1,2), of v x]
  show ?case
  proof (cases "row x < length g")
    case False
    then show ?thesis using Cons.prems rd by simp
  next
    case True
    show ?thesis
    proof (cases "afterMove h g cl v x = Some 0")
      case True
      then show ?thesis using Cons.prems rd \<open>row x < length g\<close> by auto
    next
      case False
      then have "everyFilled (tempStore h g cl v) (tempGridOf h g) cs = Inr b"
        using Cons.prems rd True by simp
      then show ?thesis using Cons.IH False True by simp
    qed
  qed
qed

lemma storeReadCells_temp:
  assumes "list_all (\<lambda>a. a < length h) g" "row cl < length g" "\<forall>x \<in> set cs. row x < length g"
  shows "storeReadCells (tempStore h g cl v) (tempGridOf h g) cs = Inr (map (afterMove h g cl v) cs)"
  using assms(3) by (induction cs) (simp_all add: tempStore_read [OF assms(1,2)])

lemma findCageErrors_frame: "take (length h) (fst (findCageErrors p h g cl v)) = h"
proof (cases "findCage p cl")
  case None
  then show ?thesis by (simp add: findCageErrors_def)
next
  case (Some cg)
  show ?thesis
  proof (cases "copyRows h g")
    case (Inl e)
    then show ?thesis using Some by (simp add: findCageErrors_def)
  next
    case (Inr pr)
    obtain h1 t where pr: "pr = (h1, t)" by (cases pr)
    have h1: "take (length h) h1 = h"
      using Inr pr by (auto simp: copyRows_def split: if_splits)
    show ?thesis
    proof (cases "storeWrite h1 t (row cl) (col cl) v")
      case (Inl e)
      then show ?thesis using Some Inr pr h1 by (simp add: findCageErrors_def)
    next
      case w: (Inr h2)
      have "h2 = tempStore h g cl v" using copy_write [OF Inr [unfolded pr] w] by simp
      then have "take (length h) h2 = h" by (simp add: take_tempStore)
      then show ?thesis using Some Inr pr w
        by (simp add: findCageErrors_def split: sum.splits bool.splits)
    qed
  qed
qed

lemma findCageErrors_spec:
  assumes "snd (findCageErrors p h g cl v) = Inr es"
  shows "es = spec_cageErrors p h g cl v"
proof (cases "findCage p cl")
  case None
  then show ?thesis using assms by (simp add: findCageErrors_def spec_cageErrors_def)
next
  case (Some cg)
  show ?thesis
  proof (cases "copyRows h g")
    case (Inl e)
    then show ?thesis using Some assms by (simp add: findCageErrors_def)
  next
    case (Inr pr)
    obtain h1 t where pr: "pr = (h1, t)" by (cases pr)
    show ?thesis
    proof (cases "storeWrite h1 t (row cl) (col cl) v")
      case (Inl e)
      then show ?thesis using Some Inr pr assms by (simp add: findCageErrors_def)
    next
      case w: (Inr h2)
      note cw = copy_write [OF Inr [unfolded pr] w]
      have va: "list_all (\<lambda>a. a < length h) g" and rc: "row cl < length g"
        and t: "t = tempGridOf h g" and h2: "h2 = tempStore h g cl v"
        using cw by simp_all
      show ?thesis
      proof (cases "everyFilled h2 t (cells cg)")
        case (Inl e)
        then show ?thesis using Some Inr pr w assms by (simp add: findCageErrors_def)
      next
        case ef: (Inr b)
        note e = everyFilled_temp [OF va rc ef [unfolded t h2]]
        show ?thesis
        proof (cases b)
          case False
          then show ?thesis
            using Some Inr pr w ef assms e by (simp add: findCageErrors_def spec_cageErrors_def)
        next
          case True
          then have rows: "\<forall>x \<in> set (cells cg). row x < length g" using e by simp
          have "validateCage cg h2 t = Inr (validateValues cg (map (afterMove h g cl v) (cells cg)))"
            unfolding validateCage_def t h2 storeReadCells_temp [OF va rc rows] by simp
          then show ?thesis
            using Some Inr pr w ef True assms e
            by (simp add: findCageErrors_def spec_cageErrors_def)
        qed
      qed
    qed
  qed
qed


lemma rowConflicts_total:
  assumes "row cl < length g" "g ! row cl < length h"
  shows "\<exists>cs. rowConflicts h g cl v ks = Inr cs"
proof (induction ks)
  case Nil
  then show ?case by simp
next
  case (Cons k ks)
  then obtain cs where "rowConflicts h g cl v ks = Inr cs" by blast
  then show ?case using assms by (simp add: storeRead_def)
qed

lemma colConflicts_total:
  assumes "list_all (\<lambda>a. a < length h) g" "\<forall>k \<in> set ks. k < length g"
  shows "\<exists>cs. colConflicts h g cl v ks = Inr cs"
  using assms(2)
proof (induction ks)
  case Nil
  then show ?case by simp
next
  case (Cons k ks)
  then obtain cs where "colConflicts h g cl v ks = Inr cs" by auto
  moreover have "k < length g" "g ! k < length h"
    using Cons.prems assms(1) by (simp_all add: list_all_length)
  ultimately show ?case by (simp add: storeRead_def)
qed

lemma findConflicts_total:
  assumes "gridInStore (psize p) h g" "row cl < psize p"
  shows "\<exists>cs. findConflicts p h g cl v = Inr cs"
proof -
  have len: "length g = psize p" and va: "list_all (\<lambda>a. a < length h) g"
    using assms(1) by (simp_all add: gridInStore_def)
  have "g ! row cl < length h" using va assms(2) len by (simp add: list_all_length)
  then obtain a where a: "rowConflicts h g cl v [0..<psize p] = Inr a"
    using rowConflicts_total [of cl g h v "[0..<psize p]"] assms(2) len by auto
  obtain b where b: "colConflicts h g cl v [0..<psize p] = Inr b"
    using colConflicts_total [OF va, of "[0..<psize p]" cl v] len by auto
  show ?thesis by (simp add: findConflicts_def a b)
qed

lemma everyFilled_total:
  assumes "list_all (\<lambda>a. a < length h) g" "row cl < length g" "\<forall>x \<in> set cs. row x < length g"
  shows "\<exists>b. everyFilled (tempStore h g cl v) (tempGridOf h g) cs = Inr b"
  using assms(3) by (induction cs) (auto simp: tempStore_read [OF assms(1,2)])

lemma findCageErrors_total:
  assumes "gridInStore (psize p) h g" "row cl < psize p" "rowsInGrid p"
  shows "\<exists>es. snd (findCageErrors p h g cl v) = Inr es"
proof (cases "findCage p cl")
  case None
  then show ?thesis by (simp add: findCageErrors_def)
next
  case (Some cg)
  have len: "length g = psize p" and va: "list_all (\<lambda>a. a < length h) g"
    using assms(1) by (simp_all add: gridInStore_def)
  have rc: "row cl < length g" using assms(2) len by simp
  have "cg \<in> set (cages p)" using Some by (auto simp: findCage_def find_Some_iff)
  then have rows: "\<forall>x \<in> set (cells cg). row x < length g"
    using assms(3) len by (simp add: rowsInGrid_def)
  have cp: "copyRows h g = Inr (h @ map (\<lambda>a. h ! a) g, tempGridOf h g)"
    using va by (simp add: copyRows_def tempGridOf_def)
  have w: "storeWrite (h @ map (\<lambda>a. h ! a) g) (tempGridOf h g) (row cl) (col cl) v
        = Inr (tempStore h g cl v)"
    using rc by (simp add: storeWrite_def tempGridOf_def tempStore_def nth_append)
  obtain b where ef: "everyFilled (tempStore h g cl v) (tempGridOf h g) (cells cg) = Inr b"
    using everyFilled_total [OF va rc rows] by blast
  have vc: "validateCage cg (tempStore h g cl v) (tempGridOf h g)
      = Inr (validateValues cg (map (afterMove h g cl v) (cells cg)))"
    unfolding validateCage_def storeReadCells_temp [OF va rc rows] by simp
  show ?thesis
    by (cases b) (simp_all add: findCageErrors_def Some cp w ef vc)
qed

lemma validateValues_exact:
  "validateValues cg (map Some vals) \<longleftrightarrow> exactConstraint (clue cg) vals"
proof -
  have "validateValues cg vs = isFullCageValid cg vs" for vs
    by (simp add: validateValues_def isFullCageValid_def)
  then show ?thesis by (simp add: isFullCageValid_exact)
qed

lemma validator_fixture_run:
  "snd (isValidMove validatorFixture fixtureStore fixtureGrid (cellAt 1 0) 1)
   = Inr \<lparr>valid = False, conflicts = [], cageErrors = [cellAt 1 0, cellAt 2 0]\<rparr>"
  by code_simp

lemma validator_fixture_shape:
  "gridInStore (psize validatorFixture) fixtureStore fixtureGrid"
  "row (cellAt 1 0) < psize validatorFixture" "rowsInGrid validatorFixture"
  by (simp_all add: gridInStore_def validatorFixture_def fixtureStore_def fixtureGrid_def
      mkPuzzle_def mkCage_def cellAt_def rowsInGrid_def)

text \<open>
  Claim C6.  For every puzzle, store, grid, cell and candidate value: the rows
  the store held before the call are unchanged after \<open>isValidMove\<close>, whether
  it returns or throws (the puzzle is a value and cannot change); whenever
  \<open>isValidMove\<close> returns, its \<open>cageErrors\<close> are the cells of the cell's cage
  if, with the candidate tentatively placed, no cell of that cage is empty
  and the cage's exact check fails, and the empty list otherwise, so that a
  cage with a cell still empty, or a cell in no cage, reports nothing; it
  does return when the grid has as many rows as the puzzle, all of them in
  the store, and the cell and the cage cells name rows of the grid; and on
  numbers the check is the exact one: sum equal to the target, product
  equal to the target, \<open>|a - b|\<close> equal to the target, \<open>max / min\<close> equal to
  the target, the single value equal to the target.
\<close>

theorem isValidMove_cage_errors:
  "take (length h) (fst (isValidMove p h g cl v)) = h \<and>
   (\<forall>res. snd (isValidMove p h g cl v) = Inr res \<longrightarrow>
      cageErrors res = spec_cageErrors p h g cl v) \<and>
   (gridInStore (psize p) h g \<and> row cl < psize p \<and> rowsInGrid p \<longrightarrow>
      (\<exists>res. snd (isValidMove p h g cl v) = Inr res)) \<and>
   (\<forall>cg vals. validateValues cg (map Some vals) \<longleftrightarrow> exactConstraint (clue cg) vals)"
proof (intro conjI allI impI)
  show "take (length h) (fst (isValidMove p h g cl v)) = h"
    using findCageErrors_frame [of h p g cl v]
    by (cases "findCageErrors p h g cl v") (auto simp: isValidMove_def split: sum.splits)
next
  fix res assume "snd (isValidMove p h g cl v) = Inr res"
  then obtain es where "snd (findCageErrors p h g cl v) = Inr es" "cageErrors res = es"
    by (auto simp: isValidMove_def split: sum.splits prod.splits)
  then show "cageErrors res = spec_cageErrors p h g cl v"
    using findCageErrors_spec by simp
next
  assume a: "gridInStore (psize p) h g \<and> row cl < psize p \<and> rowsInGrid p"
  obtain cs where cs: "findConflicts p h g cl v = Inr cs"
    using findConflicts_total [of p h g cl v] a by blast
  obtain es where es: "snd (findCageErrors p h g cl v) = Inr es"
    using findCageErrors_total [of p h g cl v] a by blast
  show "\<exists>res. snd (isValidMove p h g cl v) = Inr res"
    using cs es by (cases "findCageErrors p h g cl v") (simp add: isValidMove_def)
next
  fix cg vals
  show "validateValues cg (map Some vals) \<longleftrightarrow> exactConstraint (clue cg) vals"
    by (rule validateValues_exact)
qed

theorem isValidMove_cage_errors_witness:
  "gridInStore (psize validatorFixture) fixtureStore fixtureGrid \<and>
   row (cellAt 1 0) < psize validatorFixture \<and> rowsInGrid validatorFixture \<and>
   take (length fixtureStore)
     (fst (isValidMove validatorFixture fixtureStore fixtureGrid (cellAt 1 0) 1)) = fixtureStore \<and>
   snd (isValidMove validatorFixture fixtureStore fixtureGrid (cellAt 1 0) 1)
     = Inr \<lparr>valid = False, conflicts = [], cageErrors = [cellAt 1 0, cellAt 2 0]\<rparr> \<and>
   spec_cageErrors validatorFixture fixtureStore fixtureGrid (cellAt 1 0) 1
     = [cellAt 1 0, cellAt 2 0]"
  using isValidMove_cage_errors [of fixtureStore validatorFixture fixtureGrid "cellAt 1 0" 1]
    validator_fixture_run validator_fixture_shape
  by simp

end
